theory Spec2Isabelle
  imports Complex_Main "HOL-Library.AList" "HOL-Library.Multiset"
begin

section \<open>Schema (packages/schema/src/index.ts)\<close>

text \<open>
  The numbers that nodes, edges and progress records store are modelled by \<^typ>\<open>real\<close>:
  they stand for the finite doubles, and a stored \<open>NaN\<close> or infinity is left out. Stored
  numbers are only compared and copied, except by \<open>generateStudyPath\<close>, whose arithmetic is
  double arithmetic (section JavaScript numbers). Strings are \<^typ>\<open>string\<close>.
\<close>

datatype MathNodeType =
  NT_concept | NT_formula | NT_theorem | NT_definition | NT_identity | NT_proof | NT_symbol

datatype EdgeType = REQUIRES | GENERALIZES | SPECIAL_CASE_OF | USED_IN | APPEARS_WITH

datatype DepthLevel = D_intro | D_core | D_advanced | D_olympiad

datatype CurriculumSystem =
  VCE | GCSE | A_LEVEL | IB | AP | SAT | ACT | UNIVERSITY | OLYMPIAD

text \<open>A JSON document, as \<open>JSON.parse\<close> returns it and \<open>JSON.stringify\<close> takes it.\<close>

datatype json =
  JNull | JBool bool | JNumber real | JString string
  | JArray "json list" | JObject "(string \<times> json) list"

record ExamRef =
  ex_system :: CurriculumSystem
  ex_exam :: string
  ex_year_level :: real
  ex_depth :: DepthLevel
  ex_required :: bool

record MathNode =
  node_id :: string
  node_type :: MathNodeType
  title :: string
  latex :: "string option"
  description :: string
  domains :: "string list"
  tags :: "string list"
  complexity :: real
  requires :: "string list"
  generalizes :: "string list"
  special_cases :: "string list"
  used_in :: "string list"
  appears_in :: "ExamRef list"
  created_at :: real
  updated_at :: real

record GraphEdge =
  edge_from :: string
  edge_to :: string
  edge_type :: EdgeType
  weight :: real
  metadata :: "(string \<times> json) list option"

record ConceptProgress =
  user_id :: string
  concept_id :: string
  confidence :: real
  last_reviewed :: real
  review_count :: real
  time_spent_seconds :: real

section \<open>JavaScript containers\<close>

text \<open>
  A JavaScript \<open>Map\<close> iterates in insertion order and \<open>set\<close> on a present key keeps the
  key's position: an association list with distinct keys, written with
  \<^const>\<open>AList.update\<close>.
\<close>

type_synonym ('k, 'v) jsmap = "('k \<times> 'v) list"

definition Map_has :: "('k, 'v) jsmap \<Rightarrow> 'k \<Rightarrow> bool" where
  "Map_has m k = (map_of m k \<noteq> None)"

definition Map_get :: "('k, 'v) jsmap \<Rightarrow> 'k \<Rightarrow> 'v option" where
  "Map_get m k = map_of m k"

definition Map_set :: "('k, 'v) jsmap \<Rightarrow> 'k \<Rightarrow> 'v \<Rightarrow> ('k, 'v) jsmap" where
  "Map_set m k v = AList.update k v m"

definition Map_keys :: "('k, 'v) jsmap \<Rightarrow> 'k list" where
  "Map_keys m = map fst m"

definition Map_values :: "('k, 'v) jsmap \<Rightarrow> 'v list" where
  "Map_values m = map snd m"

text \<open>
  A JavaScript \<open>Set\<close> also iterates in insertion order: a list without repetition;
  \<open>add\<close> appends an absent element and leaves a present one where it is.
\<close>

definition Set_add :: "'a list \<Rightarrow> 'a \<Rightarrow> 'a list" where
  "Set_add s x = (if x \<in> set s then s else s @ [x])"

definition Set_delete :: "'a list \<Rightarrow> 'a \<Rightarrow> 'a list" where
  "Set_delete s x = removeAll x s"

section \<open>JavaScript numbers\<close>

text \<open>
  A JavaScript number is an IEEE-754 binary64 value: \<open>NaN\<close>, an infinity, a zero with a
  sign, or a finite value other than zero. \<open>Num 0\<close> is the positive zero. The numbers that
  nodes, edges and progress records store are reals (section Schema); \<open>Num\<close> embeds them.
\<close>

datatype number = NaN | PosInf | NegInf | NegZero | Num real

text \<open>The nearest integer, the even one of the two when they are equally near.\<close>

definition round_even :: "real \<Rightarrow> int" where
  "round_even x =
     (let f = \<lfloor>x\<rfloor>; r = x - of_int f
      in if r < 1 / 2 then f else if 1 / 2 < r then f + 1 else if even f then f else f + 1)"

text \<open>
  The exponent of the binade of a positive real \<open>a\<close>: the \<open>e\<close> with \<open>2^e \<le> a < 2^(e+1)\<close>,
  found by halving or doubling, but not below \<open>-1022\<close> (below \<open>2^-1022\<close> the doubles are
  the subnormal ones, spaced like those of binade \<open>-1022\<close>) and not above 1024.
\<close>

primrec halvings :: "nat \<Rightarrow> real \<Rightarrow> int" where
  "halvings 0 x = 0"
| "halvings (Suc n) x = (if x < 2 then 0 else halvings n (x / 2) + 1)"

primrec doublings :: "nat \<Rightarrow> real \<Rightarrow> int" where
  "doublings 0 x = 0"
| "doublings (Suc n) x = (if 1 \<le> x then 0 else doublings n (2 * x) - 1)"

definition binade :: "real \<Rightarrow> int" where
  "binade a = (if 1 \<le> a then halvings 1024 a else doublings 1022 a)"

definition pow2 :: "int \<Rightarrow> real" where
  "pow2 e = (if 0 \<le> e then 2 ^ nat e else 1 / 2 ^ nat (- e))"

text \<open>
  Rounding to nearest, ties to even: the mantissa \<open>m\<close> counts units of \<open>2^(e-52)\<close>. A
  result of magnitude \<open>2^1024\<close> or more is an infinity, and a result that rounds to zero
  keeps the sign of \<open>x\<close>.
\<close>

definition round_double :: "real \<Rightarrow> number" where
  "round_double x =
     (if x = 0 then Num 0
      else
        (let a = \<bar>x\<bar>; e = binade a; q = pow2 (e - 52); m = round_even (a / q)
         in if 1024 \<le> e \<or> (e = 1023 \<and> 2 ^ 53 \<le> m) then (if x < 0 then NegInf else PosInf)
            else if m = 0 then (if x < 0 then NegZero else Num 0)
            else Num (sgn x * (of_int m * q))))"

text \<open>The arithmetic operators (ECMA-262, Number::add, ::subtract, ::multiply, ::divide).\<close>

fun is_inf :: "number \<Rightarrow> bool" where
  "is_inf PosInf = True" | "is_inf NegInf = True" | "is_inf _ = False"

fun is_zero :: "number \<Rightarrow> bool" where
  "is_zero NegZero = True" | "is_zero (Num x) = (x = 0)" | "is_zero _ = False"

fun negative :: "number \<Rightarrow> bool" where
  "negative NegInf = True" | "negative NegZero = True" | "negative (Num x) = (x < 0)"
| "negative _ = False"

fun val :: "number \<Rightarrow> real" where
  "val (Num x) = x" | "val _ = 0"

fun num_neg :: "number \<Rightarrow> number" where
  "num_neg NaN = NaN" | "num_neg PosInf = NegInf" | "num_neg NegInf = PosInf"
| "num_neg NegZero = Num 0" | "num_neg (Num x) = (if x = 0 then NegZero else Num (- x))"

definition num_add :: "number \<Rightarrow> number \<Rightarrow> number" where
  "num_add x y =
     (if x = NaN \<or> y = NaN then NaN
      else if is_inf x \<and> is_inf y then (if x = y then x else NaN)
      else if is_inf x then x
      else if is_inf y then y
      else if is_zero x \<and> is_zero y then (if negative x \<and> negative y then NegZero else Num 0)
      else round_double (val x + val y))"

definition num_sub :: "number \<Rightarrow> number \<Rightarrow> number" where
  "num_sub x y = num_add x (num_neg y)"

definition num_mul :: "number \<Rightarrow> number \<Rightarrow> number" where
  "num_mul x y =
     (if x = NaN \<or> y = NaN then NaN
      else if (is_inf x \<and> is_zero y) \<or> (is_zero x \<and> is_inf y) then NaN
      else if is_inf x \<or> is_inf y then (if negative x \<noteq> negative y then NegInf else PosInf)
      else if is_zero x \<or> is_zero y then (if negative x \<noteq> negative y then NegZero else Num 0)
      else round_double (val x * val y))"

definition num_div :: "number \<Rightarrow> number \<Rightarrow> number" where
  "num_div x y =
     (if x = NaN \<or> y = NaN then NaN
      else if (is_inf x \<and> is_inf y) \<or> (is_zero x \<and> is_zero y) then NaN
      else if is_inf x \<or> is_zero y then (if negative x \<noteq> negative y then NegInf else PosInf)
      else if is_inf y \<or> is_zero x then (if negative x \<noteq> negative y then NegZero else Num 0)
      else round_double (val x / val y))"

text \<open>\<open>Math.ceil\<close>: a value between \<open>-1\<close> and 0 gives the negative zero.\<close>

fun Math_ceil :: "number \<Rightarrow> number" where
  "Math_ceil (Num x) = (if - 1 < x \<and> x < 0 then NegZero else Num (of_int \<lceil>x\<rceil>))"
| "Math_ceil x = x"

text \<open>The comparisons \<open>x <= y\<close> and \<open>x < y\<close> of JavaScript; both are false when an operand is \<open>NaN\<close>.\<close>

definition num_le :: "number \<Rightarrow> number \<Rightarrow> bool" where
  "num_le x y =
     (x \<noteq> NaN \<and> y \<noteq> NaN
      \<and> (x = NegInf \<or> y = PosInf \<or> (\<not> is_inf x \<and> \<not> is_inf y \<and> val x \<le> val y)))"

definition num_lt :: "number \<Rightarrow> number \<Rightarrow> bool" where
  "num_lt x y =
     (x \<noteq> NaN \<and> y \<noteq> NaN
      \<and> ((x = NegInf \<and> y \<noteq> NegInf) \<or> (y = PosInf \<and> x \<noteq> PosInf)
         \<or> (\<not> is_inf x \<and> \<not> is_inf y \<and> val x < val y)))"

subsection \<open>Rounding is monotone\<close>

lemma round_even_bounds: "of_int (round_even x) \<le> x + 1 / 2" "x - 1 / 2 \<le> of_int (round_even x)"
  unfolding round_even_def Let_def by (auto; linarith)+

lemma round_even_of_int [simp]: "round_even (of_int n) = n"
  by (simp add: round_even_def Let_def)

lemma round_even_mono:
  assumes "x \<le> y" shows "round_even x \<le> round_even y"
proof (cases "\<lfloor>x\<rfloor> = \<lfloor>y\<rfloor>")
  case True
  then show ?thesis using assms unfolding round_even_def Let_def by auto
next
  case False
  with assms have lt: "\<lfloor>x\<rfloor> < \<lfloor>y\<rfloor>" using floor_mono[OF assms] by linarith
  have "round_even x \<le> \<lfloor>x\<rfloor> + 1" unfolding round_even_def Let_def by auto
  moreover have "\<lfloor>y\<rfloor> \<le> round_even y" unfolding round_even_def Let_def by auto
  ultimately show ?thesis using lt by linarith
qed

lemma pow2_powi: "pow2 e = 2 powi e"
  by (simp add: pow2_def power_int_def field_simps)

lemma pow2_pos [simp]: "0 < pow2 e"
  by (simp add: pow2_def)

lemma pow2_nonneg [simp]: "0 \<le> pow2 e"
  by (simp add: pow2_def)

lemma pow2_not_neg [simp]: "\<not> pow2 e < 0"
  by (simp add: not_less)

lemma pow2_add: "pow2 (a + b) = pow2 a * pow2 b"
  by (simp add: pow2_powi power_int_add)

lemma pow2_Suc: "pow2 (e + 1) = 2 * pow2 e"
  using pow2_add[of e 1] by (simp add: pow2_def)

lemma pow2_mono: "a \<le> b \<Longrightarrow> pow2 a \<le> pow2 b"
  by (simp add: pow2_powi power_int_increasing)

lemma halvings_bounds:
  "1 \<le> a \<Longrightarrow>
   0 \<le> halvings n a \<and> halvings n a \<le> int n \<and> pow2 (halvings n a) \<le> a
   \<and> (a < pow2 (halvings n a + 1) \<or> halvings n a = int n)"
proof (induction n arbitrary: a)
  case 0
  then show ?case by (simp add: pow2_def)
next
  case (Suc n)
  show ?case
  proof (cases "a < 2")
    case True
    with Suc.prems show ?thesis by (simp add: pow2_def)
  next
    case False
    with Suc.prems have "1 \<le> a / 2" by simp
    from Suc.IH[OF this] have IH: "0 \<le> halvings n (a / 2)" "halvings n (a / 2) \<le> int n"
      "pow2 (halvings n (a / 2)) \<le> a / 2"
      "a / 2 < pow2 (halvings n (a / 2) + 1) \<or> halvings n (a / 2) = int n" by simp_all
    have d: "halvings (Suc n) a = halvings n (a / 2) + 1" using False by simp
    have "pow2 (halvings n (a / 2) + 1) \<le> a" using IH(3) by (simp add: pow2_Suc)
    moreover have "a < pow2 (halvings n (a / 2) + 1 + 1) \<or> halvings n (a / 2) = int n"
      using IH(4) pow2_Suc[of "halvings n (a / 2) + 1"] by auto
    ultimately show ?thesis unfolding d using IH(1,2) by auto
  qed
qed

lemma doublings_bounds:
  "0 < a \<Longrightarrow> a < 1 \<Longrightarrow> 0 < n \<Longrightarrow>
   - int n \<le> doublings n a \<and> doublings n a \<le> - 1 \<and> a < pow2 (doublings n a + 1)
   \<and> (pow2 (doublings n a) \<le> a \<or> doublings n a = - int n)"
proof (induction n arbitrary: a)
  case 0
  then show ?case by simp
next
  case (Suc n)
  show ?case
  proof (cases "1 \<le> 2 * a")
    case True
    then have d: "doublings (Suc n) a = - 1" using Suc.prems by (cases n) simp_all
    show ?thesis unfolding d using True Suc.prems by (simp add: pow2_def)
  next
    case False
    show ?thesis
    proof (cases n)
      case 0
      with False Suc.prems show ?thesis by (simp add: pow2_def)
    next
      case (Suc m)
      from False Suc.prems have "0 < 2 * a" "2 * a < 1" by simp_all
      from Suc.IH[OF this] Suc have IH: "- int n \<le> doublings n (2 * a)" "doublings n (2 * a) \<le> - 1"
        "2 * a < pow2 (doublings n (2 * a) + 1)"
        "pow2 (doublings n (2 * a)) \<le> 2 * a \<or> doublings n (2 * a) = - int n" by simp_all
      have d: "doublings (Suc n) a = doublings n (2 * a) - 1" using Suc.prems by simp
      have e1: "pow2 (doublings n (2 * a) + 1) = 2 * pow2 (doublings n (2 * a) - 1 + 1)"
        using pow2_Suc[of "doublings n (2 * a) - 1 + 1"] by simp
      have e2: "pow2 (doublings n (2 * a)) = 2 * pow2 (doublings n (2 * a) - 1)"
        using pow2_Suc[of "doublings n (2 * a) - 1"] by simp
      show ?thesis unfolding d using IH e1 e2 by auto
    qed
  qed
qed

lemma binade_bounds:
  assumes "0 < a"
  shows "- 1022 \<le> binade a" "binade a \<le> 1024"
    "a < pow2 (binade a + 1) \<or> binade a = 1024"
    "pow2 (binade a) \<le> a \<or> binade a = - 1022"
proof -
  have "- 1022 \<le> binade a \<and> binade a \<le> 1024
    \<and> (a < pow2 (binade a + 1) \<or> binade a = 1024)
    \<and> (pow2 (binade a) \<le> a \<or> binade a = - 1022)"
  proof (cases "1 \<le> a")
    case True
    from halvings_bounds[OF True, of 1024] True show ?thesis by (simp add: binade_def)
  next
    case False
    then have "a < 1" by simp
    from doublings_bounds[OF assms this, of 1022] False show ?thesis by (simp add: binade_def)
  qed
  then show "- 1022 \<le> binade a" "binade a \<le> 1024"
    "a < pow2 (binade a + 1) \<or> binade a = 1024"
    "pow2 (binade a) \<le> a \<or> binade a = - 1022" by simp_all
qed

lemma binade_mono:
  assumes "0 < a" "a \<le> b"
  shows "binade a \<le> binade b"
proof (rule ccontr)
  assume "\<not> binade a \<le> binade b"
  then have lt: "binade b + 1 \<le> binade a" by simp
  have b0: "0 < b" using assms by simp
  from lt binade_bounds(1)[OF b0] have "binade a \<noteq> - 1022" by simp
  with binade_bounds(4)[OF assms(1)] have "pow2 (binade a) \<le> a" by simp
  moreover from lt binade_bounds(2)[OF assms(1)] have "binade b \<noteq> 1024" by simp
  with binade_bounds(3)[OF b0] have "b < pow2 (binade b + 1)" by simp
  moreover have "pow2 (binade b + 1) \<le> pow2 (binade a)" by (rule pow2_mono[OF lt])
  ultimately show False using assms(2) by simp
qed

text \<open>The mantissa and the magnitude that a positive real rounds to.\<close>

definition mantissa :: "real \<Rightarrow> int" where
  "mantissa a = round_even (a / pow2 (binade a - 52))"

definition magnitude :: "real \<Rightarrow> real" where
  "magnitude a = of_int (mantissa a) * pow2 (binade a - 52)"

definition overflows :: "real \<Rightarrow> bool" where
  "overflows a = (1024 \<le> binade a \<or> (binade a = 1023 \<and> 2 ^ 53 \<le> mantissa a))"

lemma pow2_52: "pow2 (b - 52) * 2 ^ 52 = pow2 b"
  using pow2_add[of "b - 52" 52] by (simp add: pow2_def)

lemma mantissa_upper:
  assumes "0 < a" "binade a \<noteq> 1024"
  shows "mantissa a \<le> 2 ^ 53"
proof -
  let ?q = "pow2 (binade a - 52)"
  have "a / ?q \<le> 2 ^ 53"
  proof -
    have "a < 2 * pow2 (binade a)" using binade_bounds(3)[OF assms(1)] assms(2) by (simp add: pow2_Suc)
    also have "\<dots> = 2 ^ 53 * ?q" using pow2_52[of "binade a"] by simp
    finally show ?thesis by (simp add: field_simps)
  qed
  then have "round_even (a / ?q) \<le> round_even (of_int (2 ^ 53))"
    using round_even_mono[of "a / ?q" "of_int (2 ^ 53)"] by simp
  then show ?thesis unfolding mantissa_def by (simp only: round_even_of_int)
qed

lemma magnitude_upper:
  assumes "0 < a" "binade a \<noteq> 1024"
  shows "magnitude a \<le> pow2 (binade a + 1)"
proof -
  let ?q = "pow2 (binade a - 52)"
  have "(of_int (mantissa a) :: real) \<le> 2 ^ 53"
    using mantissa_upper[OF assms] by (metis of_int_le_iff of_int_numeral of_int_power)
  then have "magnitude a \<le> 2 ^ 53 * ?q"
    unfolding magnitude_def by (simp add: mult_right_mono)
  also have "\<dots> = pow2 (binade a + 1)" using pow2_52[of "binade a"] by (simp add: pow2_Suc)
  finally show ?thesis .
qed

lemma magnitude_lower:
  assumes "pow2 (binade a) \<le> a"
  shows "pow2 (binade a) \<le> magnitude a"
proof -
  let ?q = "pow2 (binade a - 52)"
  have "2 ^ 52 * ?q \<le> a" using assms pow2_52[of "binade a"] by (simp add: mult.commute)
  then have "2 ^ 52 \<le> a / ?q" by (simp add: field_simps)
  then have "round_even (of_int (2 ^ 52)) \<le> round_even (a / ?q)"
    using round_even_mono[of "of_int (2 ^ 52)" "a / ?q"] by simp
  then have "2 ^ 52 \<le> mantissa a" unfolding mantissa_def by (simp only: round_even_of_int)
  then have "(2 ^ 52 :: real) \<le> of_int (mantissa a)"
    by (metis of_int_le_iff of_int_numeral of_int_power)
  then have "2 ^ 52 * ?q \<le> magnitude a"
    unfolding magnitude_def by (simp add: mult_right_mono)
  then show ?thesis using pow2_52[of "binade a"] by (simp add: mult.commute)
qed

lemma magnitude_nonneg: "0 \<le> a \<Longrightarrow> 0 \<le> magnitude a"
proof -
  assume "0 \<le> a"
  then have "0 \<le> a / pow2 (binade a - 52)" by simp
  then have "round_even (of_int 0) \<le> round_even (a / pow2 (binade a - 52))"
    using round_even_mono[of "of_int 0" "a / pow2 (binade a - 52)"] by simp
  then have "0 \<le> mantissa a" unfolding mantissa_def by (simp only: round_even_of_int)
  then show ?thesis unfolding magnitude_def by simp
qed

lemma mantissa_mono:
  assumes "a \<le> b" "binade a = binade b"
  shows "mantissa a \<le> mantissa b"
proof -
  have "a / pow2 (binade b - 52) \<le> b / pow2 (binade b - 52)"
    using assms(1) by (simp add: divide_right_mono)
  from round_even_mono[OF this] show ?thesis unfolding mantissa_def assms(2) .
qed

lemma magnitude_mono:
  assumes "0 < a" "a \<le> b" "binade b \<noteq> 1024"
  shows "magnitude a \<le> magnitude b"
proof (cases "binade a = binade b")
  case True
  from mantissa_mono[OF assms(2) True] show ?thesis
    unfolding magnitude_def True by (simp add: mult_right_mono)
next
  case False
  with binade_mono[OF assms(1,2)] have lt: "binade a + 1 \<le> binade b" by simp
  have b0: "0 < b" using assms by simp
  from lt binade_bounds(2)[OF b0] have a1: "binade a \<noteq> 1024" by simp
  from lt binade_bounds(1)[OF assms(1)] have "binade b \<noteq> - 1022" by simp
  with binade_bounds(4)[OF b0] have "pow2 (binade b) \<le> b" by simp
  from magnitude_lower[OF this] magnitude_upper[OF assms(1) a1] pow2_mono[OF lt]
  show ?thesis by linarith
qed

lemma overflows_mono:
  assumes "0 < a" "a \<le> b" "overflows a"
  shows "overflows b"
proof (cases "1024 \<le> binade b")
  case True
  then show ?thesis by (simp add: overflows_def)
next
  case False
  with binade_mono[OF assms(1,2)] assms(3) have e: "binade a = 1023" "binade b = 1023"
    and m: "2 ^ 53 \<le> mantissa a"
    unfolding overflows_def by auto
  from mantissa_mono[OF assms(2)] e have "mantissa a \<le> mantissa b" by simp
  with m e show ?thesis unfolding overflows_def by simp
qed

lemma round_double_overflow:
  assumes "x \<noteq> 0" "overflows \<bar>x\<bar>"
  shows "round_double x = (if x < 0 then NegInf else PosInf)"
  using assms unfolding round_double_def overflows_def mantissa_def Let_def by simp

lemma round_double_finite:
  assumes "x = 0 \<or> \<not> overflows \<bar>x\<bar>"
  shows "\<not> is_inf (round_double x)" "val (round_double x) = sgn x * magnitude \<bar>x\<bar>"
  using assms unfolding round_double_def overflows_def magnitude_def mantissa_def Let_def
  by (auto simp: sgn_if)

lemma round_double_not_NaN [simp]: "round_double x \<noteq> NaN"
  unfolding round_double_def Let_def by auto

lemma not_overflows_binade: "\<not> overflows a \<Longrightarrow> binade a \<noteq> 1024"
  by (auto simp: overflows_def)

lemma round_double_mono:
  assumes "x \<le> y"
  shows "num_le (round_double x) (round_double y)"
proof -
  consider "y \<noteq> 0" "0 < y" "overflows \<bar>y\<bar>" | "x < 0" "overflows \<bar>x\<bar>"
    | "x = 0 \<or> \<not> overflows \<bar>x\<bar>" "y = 0 \<or> \<not> overflows \<bar>y\<bar>"
    | "0 \<le> x" "x \<noteq> 0" "overflows \<bar>x\<bar>" | "y \<le> 0" "y \<noteq> 0" "overflows \<bar>y\<bar>"
    by (cases "x = 0"; cases "y = 0"; cases "0 < y"; cases "x < 0") auto
  then show ?thesis
  proof cases
    case 1
    then show ?thesis by (simp add: round_double_overflow num_le_def)
  next
    case 2
    then show ?thesis by (simp add: round_double_overflow num_le_def)
  next
    case 4
    with assms have "0 < \<bar>x\<bar>" "\<bar>x\<bar> \<le> \<bar>y\<bar>" by simp_all
    from overflows_mono[OF this 4(3)] 4 assms show ?thesis
      by (simp add: round_double_overflow num_le_def)
  next
    case 5
    with assms have "0 < \<bar>y\<bar>" "\<bar>y\<bar> \<le> \<bar>x\<bar>" by simp_all
    from overflows_mono[OF this 5(3)] 5 assms show ?thesis
      by (simp add: round_double_overflow num_le_def)
  next
    case 3
    have vx: "val (round_double x) = sgn x * magnitude \<bar>x\<bar>" by (rule round_double_finite(2)[OF 3(1)])
    have vy: "val (round_double y) = sgn y * magnitude \<bar>y\<bar>" by (rule round_double_finite(2)[OF 3(2)])
    have le: "sgn x * magnitude \<bar>x\<bar> \<le> sgn y * magnitude \<bar>y\<bar>"
    proof -
      consider "0 < x" | "y < 0" | "x \<le> 0" "0 \<le> y" by linarith
      then show ?thesis
      proof cases
        case 1
        with assms 3 have "0 < \<bar>x\<bar>" "\<bar>x\<bar> \<le> \<bar>y\<bar>" "binade \<bar>y\<bar> \<noteq> 1024"
          by (auto dest: not_overflows_binade)
        from magnitude_mono[OF this] 1 assms show ?thesis by (simp add: sgn_if)
      next
        case 2
        with assms 3 have "0 < \<bar>y\<bar>" "\<bar>y\<bar> \<le> \<bar>x\<bar>" "binade \<bar>x\<bar> \<noteq> 1024"
          by (auto dest: not_overflows_binade)
        from magnitude_mono[OF this] 2 assms show ?thesis by (simp add: sgn_if)
      next
        case 3
        have "sgn x * magnitude \<bar>x\<bar> \<le> 0"
          using 3(1) magnitude_nonneg[of "\<bar>x\<bar>"] by (simp add: sgn_if)
        moreover have "0 \<le> sgn y * magnitude \<bar>y\<bar>"
          using 3(2) magnitude_nonneg[of "\<bar>y\<bar>"] by (simp add: sgn_if)
        ultimately show ?thesis by linarith
      qed
    qed
    show ?thesis
      unfolding num_le_def using round_double_finite(1)[OF 3(1)] round_double_finite(1)[OF 3(2)] le vx vy
      by simp
  qed
qed

lemma round_double_half: "round_double (1 / 2) = Num (1 / 2)"
  by code_simp

lemma round_double_one: "round_double 1 = Num 1"
  by code_simp

section \<open>MathGraph (packages/graph/src/index.ts)\<close>

record MathGraph =
  nodes :: "(string, MathNode) jsmap"
  edges :: "(string, GraphEdge list) jsmap"
  reverseEdges :: "(string, GraphEdge list) jsmap"

definition MathGraph_new :: MathGraph where
  "MathGraph_new = \<lparr>nodes = [], edges = [], reverseEdges = []\<rparr>"

text \<open>\<open>if (!m.has(k)) m.set(k, [])\<close>\<close>

definition ensure_list :: "(string, 'v list) jsmap \<Rightarrow> string \<Rightarrow> (string, 'v list) jsmap" where
  "ensure_list m k = (if \<not> Map_has m k then Map_set m k [] else m)"

text \<open>
  \<open>m.get(k)!.push(e)\<close>: the array stored under \<open>k\<close> grows in place. Both callers run
  \<^const>\<open>ensure_list\<close> on the same key first, so the key is present.
\<close>

definition push_at :: "(string, 'v list) jsmap \<Rightarrow> string \<Rightarrow> 'v \<Rightarrow> (string, 'v list) jsmap" where
  "push_at m k e = (case Map_get m k of Some l \<Rightarrow> Map_set m k (l @ [e]) | None \<Rightarrow> m)"

definition addNode :: "MathGraph \<Rightarrow> MathNode \<Rightarrow> MathGraph" where
  "addNode g node =
     g\<lparr>nodes := Map_set (nodes g) (node_id node) node,
       edges := ensure_list (edges g) (node_id node),
       reverseEdges := ensure_list (reverseEdges g) (node_id node)\<rparr>"

definition addEdge :: "MathGraph \<Rightarrow> GraphEdge \<Rightarrow> MathGraph" where
  "addEdge g edge =
     g\<lparr>edges := push_at (ensure_list (edges g) (edge_from edge)) (edge_from edge) edge,
       reverseEdges := push_at (ensure_list (reverseEdges g) (edge_to edge)) (edge_to edge) edge\<rparr>"

definition getNode :: "MathGraph \<Rightarrow> string \<Rightarrow> MathNode option" where
  "getNode g i = Map_get (nodes g) i"

definition getOutgoingEdges :: "MathGraph \<Rightarrow> string \<Rightarrow> GraphEdge list" where
  "getOutgoingEdges g nodeId = (case Map_get (edges g) nodeId of Some l \<Rightarrow> l | None \<Rightarrow> [])"

definition getIncomingEdges :: "MathGraph \<Rightarrow> string \<Rightarrow> GraphEdge list" where
  "getIncomingEdges g nodeId =
     (case Map_get (reverseEdges g) nodeId of Some l \<Rightarrow> l | None \<Rightarrow> [])"

definition getPrerequisites :: "MathGraph \<Rightarrow> string \<Rightarrow> string list" where
  "getPrerequisites g nodeId =
     map edge_from (filter (\<lambda>e. edge_type e = REQUIRES) (getIncomingEdges g nodeId))"

definition getDependents :: "MathGraph \<Rightarrow> string \<Rightarrow> string list" where
  "getDependents g nodeId =
     map edge_to (filter (\<lambda>e. edge_type e = REQUIRES) (getOutgoingEdges g nodeId))"

text \<open>
  The fields of a \<open>MathGraph\<close> are private: a graph is what the constructor followed by
  calls of \<open>addNode\<close> and \<open>addEdge\<close> makes (\<open>getSubgraph\<close> and \<open>fromJSON\<close> build theirs the
  same way).
\<close>

datatype GraphOp = AddNode MathNode | AddEdge GraphEdge

fun apply_op :: "MathGraph \<Rightarrow> GraphOp \<Rightarrow> MathGraph" where
  "apply_op g (AddNode n) = addNode g n"
| "apply_op g (AddEdge e) = addEdge g e"

definition build :: "GraphOp list \<Rightarrow> MathGraph" where
  "build ops = foldl apply_op MathGraph_new ops"

text \<open>All edges of the forward index, and the REQUIRES relation they give: \<open>(a, b)\<close> is
  an edge from \<open>a\<close> to \<open>b\<close>, that is, \<open>b\<close> requires \<open>a\<close>.\<close>

definition allEdges :: "MathGraph \<Rightarrow> GraphEdge list" where
  "allEdges g = concat (Map_values (edges g))"

definition requiresRel :: "MathGraph \<Rightarrow> (string \<times> string) set" where
  "requiresRel g =
     set (map (\<lambda>e. (edge_from e, edge_to e)) (filter (\<lambda>e. edge_type e = REQUIRES) (allEdges g)))"

subsection \<open>Snapshots\<close>

record Snapshot =
  snap_nodes :: "MathNode list"
  snap_edges :: "GraphEdge list"

text \<open>The object that \<open>exportJSON\<close> hands to \<open>JSON.stringify\<close>.\<close>

definition exportSnapshot :: "MathGraph \<Rightarrow> Snapshot" where
  "exportSnapshot g =
     \<lparr>snap_nodes = Map_values (nodes g), snap_edges = concat (Map_values (edges g))\<rparr>"


subsection \<open>The snapshot text\<close>

text \<open>
  \<open>JSON.stringify(value, null, gap)\<close> is a JavaScript built-in; it is modelled after
  ECMA-262 (SerializeJSONProperty, SerializeJSONObject, SerializeJSONArray,
  QuoteJSONString). How a number is printed is a parameter \<open>num\<close>.
\<close>

definition hex_digit :: "nat \<Rightarrow> char" where
  "hex_digit n = (if n < 10 then char_of (48 + n) else char_of (87 + n))"

definition escape_char :: "char \<Rightarrow> string" where
  "escape_char c =
     (if c = CHR 0x08 then [CHR 0x5C, CHR ''b'']
      else if c = CHR 0x09 then [CHR 0x5C, CHR ''t'']
      else if c = CHR 0x0A then [CHR 0x5C, CHR ''n'']
      else if c = CHR 0x0C then [CHR 0x5C, CHR ''f'']
      else if c = CHR 0x0D then [CHR 0x5C, CHR ''r'']
      else if c = CHR 0x22 then [CHR 0x5C, CHR 0x22]
      else if c = CHR 0x5C then [CHR 0x5C, CHR 0x5C]
      else if (of_char c :: nat) < 32
        then [CHR 0x5C, CHR ''u'', CHR ''0'', CHR ''0'',
              hex_digit ((of_char c :: nat) div 16), hex_digit ((of_char c :: nat) mod 16)]
      else [c])"

definition QuoteJSONString :: "string \<Rightarrow> string" where
  "QuoteJSONString s = [CHR 0x22] @ concat (map escape_char s) @ [CHR 0x22]"

fun join :: "string \<Rightarrow> string list \<Rightarrow> string" where
  "join sep [] = []"
| "join sep [x] = x"
| "join sep (x # y # ys) = x @ sep @ join sep (y # ys)"

fun SerializeJSONProperty :: "(real \<Rightarrow> string) \<Rightarrow> string \<Rightarrow> string \<Rightarrow> json \<Rightarrow> string" where
  "SerializeJSONProperty num gap indent JNull = ''null''"
| "SerializeJSONProperty num gap indent (JBool b) = (if b then ''true'' else ''false'')"
| "SerializeJSONProperty num gap indent (JNumber x) = num x"
| "SerializeJSONProperty num gap indent (JString s) = QuoteJSONString s"
| "SerializeJSONProperty num gap indent (JArray vs) =
     (if vs = [] then ''[]''
      else if gap = []
        then ''['' @ join '','' (map (SerializeJSONProperty num gap (indent @ gap)) vs) @ '']''
      else ''['' @ [CHR 0x0A] @ (indent @ gap)
           @ join ('','' @ [CHR 0x0A] @ (indent @ gap))
               (map (SerializeJSONProperty num gap (indent @ gap)) vs)
           @ [CHR 0x0A] @ indent @ '']'')"
| "SerializeJSONProperty num gap indent (JObject kvs) =
     (if kvs = [] then ''{}''
      else if gap = []
        then ''{'' @ join '','' (map (\<lambda>(k, v). QuoteJSONString k @ '':''
                 @ SerializeJSONProperty num gap (indent @ gap) v) kvs) @ ''}''
      else ''{'' @ [CHR 0x0A] @ (indent @ gap)
           @ join ('','' @ [CHR 0x0A] @ (indent @ gap))
               (map (\<lambda>(k, v). QuoteJSONString k @ '': ''
                  @ SerializeJSONProperty num gap (indent @ gap) v) kvs)
           @ [CHR 0x0A] @ indent @ ''}'')"

definition MathNodeType_json :: "MathNodeType \<Rightarrow> json" where
  "MathNodeType_json t = JString (case t of
       NT_concept \<Rightarrow> ''concept'' | NT_formula \<Rightarrow> ''formula'' | NT_theorem \<Rightarrow> ''theorem''
     | NT_definition \<Rightarrow> ''definition'' | NT_identity \<Rightarrow> ''identity'' | NT_proof \<Rightarrow> ''proof''
     | NT_symbol \<Rightarrow> ''symbol'')"

definition EdgeType_json :: "EdgeType \<Rightarrow> json" where
  "EdgeType_json t = JString (case t of
       REQUIRES \<Rightarrow> ''REQUIRES'' | GENERALIZES \<Rightarrow> ''GENERALIZES''
     | SPECIAL_CASE_OF \<Rightarrow> ''SPECIAL_CASE_OF'' | USED_IN \<Rightarrow> ''USED_IN''
     | APPEARS_WITH \<Rightarrow> ''APPEARS_WITH'')"

definition DepthLevel_json :: "DepthLevel \<Rightarrow> json" where
  "DepthLevel_json d = JString (case d of
       D_intro \<Rightarrow> ''intro'' | D_core \<Rightarrow> ''core'' | D_advanced \<Rightarrow> ''advanced''
     | D_olympiad \<Rightarrow> ''olympiad'')"

definition CurriculumSystem_json :: "CurriculumSystem \<Rightarrow> json" where
  "CurriculumSystem_json s = JString (case s of
       VCE \<Rightarrow> ''VCE'' | GCSE \<Rightarrow> ''GCSE'' | A_LEVEL \<Rightarrow> ''A_LEVEL'' | IB \<Rightarrow> ''IB'' | AP \<Rightarrow> ''AP''
     | SAT \<Rightarrow> ''SAT'' | ACT \<Rightarrow> ''ACT'' | UNIVERSITY \<Rightarrow> ''UNIVERSITY'' | OLYMPIAD \<Rightarrow> ''OLYMPIAD'')"

definition ExamRef_json :: "ExamRef \<Rightarrow> json" where
  "ExamRef_json r = JObject
     [(''system'', CurriculumSystem_json (ex_system r)),
      (''exam'', JString (ex_exam r)),
      (''year_level'', JNumber (ex_year_level r)),
      (''depth'', DepthLevel_json (ex_depth r)),
      (''required'', JBool (ex_required r))]"

definition strings_json :: "string list \<Rightarrow> json" where
  "strings_json xs = JArray (map JString xs)"

definition MathNode_json :: "MathNode \<Rightarrow> json" where
  "MathNode_json n = JObject
     ([(''id'', JString (node_id n)),
       (''type'', MathNodeType_json (node_type n)),
       (''title'', JString (title n))]
      @ (case latex n of None \<Rightarrow> [] | Some l \<Rightarrow> [(''latex'', JString l)])
      @ [(''description'', JString (description n)),
         (''domains'', strings_json (domains n)),
         (''tags'', strings_json (tags n)),
         (''complexity'', JNumber (complexity n)),
         (''requires'', strings_json (requires n)),
         (''generalizes'', strings_json (generalizes n)),
         (''special_cases'', strings_json (special_cases n)),
         (''used_in'', strings_json (used_in n)),
         (''appears_in'', JArray (map ExamRef_json (appears_in n))),
         (''created_at'', JNumber (created_at n)),
         (''updated_at'', JNumber (updated_at n))])"

definition GraphEdge_json :: "GraphEdge \<Rightarrow> json" where
  "GraphEdge_json e = JObject
     ([(''from'', JString (edge_from e)),
       (''to'', JString (edge_to e)),
       (''type'', EdgeType_json (edge_type e)),
       (''weight'', JNumber (weight e))]
      @ (case metadata e of None \<Rightarrow> [] | Some m \<Rightarrow> [(''metadata'', JObject m)]))"

definition Snapshot_json :: "Snapshot \<Rightarrow> json" where
  "Snapshot_json s = JObject
     [(''nodes'', JArray (map MathNode_json (snap_nodes s))),
      (''edges'', JArray (map GraphEdge_json (snap_edges s)))]"

definition JSON_stringify :: "(real \<Rightarrow> string) \<Rightarrow> json \<Rightarrow> string \<Rightarrow> string" where
  "JSON_stringify num v gap = SerializeJSONProperty num gap [] v"

definition exportJSON :: "(real \<Rightarrow> string) \<Rightarrow> MathGraph \<Rightarrow> string" where
  "exportJSON num g = JSON_stringify num (Snapshot_json (exportSnapshot g)) ''  ''"


definition newline_free :: "string \<Rightarrow> bool" where
  "newline_free s = (CHR 0x0A \<notin> set s)"

section \<open>Concrete inputs\<close>

text \<open>A node with the given ID and complexity, and a REQUIRES edge of weight 1.\<close>

definition mk_node :: "string \<Rightarrow> real \<Rightarrow> MathNode" where
  "mk_node i c = \<lparr>node_id = i, node_type = NT_concept, title = i, latex = None, description = [],
     domains = [], tags = [], complexity = c, requires = [], generalizes = [], special_cases = [],
     used_in = [], appears_in = [], created_at = 0, updated_at = 0\<rparr>"

definition mk_edge :: "string \<Rightarrow> string \<Rightarrow> GraphEdge" where
  "mk_edge a b = \<lparr>edge_from = a, edge_to = b, edge_type = REQUIRES, weight = 1, metadata = None\<rparr>"

section \<open>Properties of the graph store\<close>

subsection \<open>Association lists and the adjacency indexes\<close>

lemma map_of_ensure_list:
  "map_of (ensure_list m k) = (if map_of m k = None then (map_of m)(k \<mapsto> []) else map_of m)"
  by (simp add: ensure_list_def Map_has_def Map_set_def update_conv')

lemma ensure_list_has: "map_of (ensure_list m k) k \<noteq> None"
  by (simp add: map_of_ensure_list)

lemma update_fresh: "k \<notin> fst ` set al \<Longrightarrow> AList.update k v al = al @ [(k, v)]"
  by (induction al) auto

lemma ensure_list_cases:
  "ensure_list m k = (if k \<in> fst ` set m then m else m @ [(k, [])])"
  by (auto simp: ensure_list_def Map_has_def Map_set_def update_fresh map_of_eq_None_iff)

lemma concat_values_ensure_list [simp]:
  "concat (map snd (ensure_list m k)) = concat (map snd m)"
  by (simp add: ensure_list_cases)

lemma mset_concat_update:
  "map_of al k = Some l \<Longrightarrow>
   mset (concat (map snd (AList.update k (l @ [e]) al))) = mset (concat (map snd al)) + {#e#}"
  by (induction al) (auto split: if_splits)

lemma mset_concat_push_at:
  "map_of m k \<noteq> None \<Longrightarrow>
   mset (concat (map snd (push_at m k e))) = mset (concat (map snd m)) + {#e#}"
  by (auto simp: push_at_def Map_get_def Map_set_def mset_concat_update)

lemma mset_allEdges_addEdge:
  "mset (allEdges (addEdge g e)) = mset (allEdges g) + {#e#}"
  by (simp add: allEdges_def addEdge_def Map_values_def mset_concat_push_at ensure_list_has)

lemma allEdges_addNode: "allEdges (addNode g n) = allEdges g"
  by (simp add: allEdges_def addNode_def Map_values_def)



lemma nodes_addEdge [simp]: "nodes (addEdge g e) = nodes g"
  by (simp add: addEdge_def)

lemma nodes_foldl_addEdge [simp]: "nodes (foldl addEdge g es) = nodes g"
  by (induction es arbitrary: g) simp_all


lemma set_update_distinct:
  "distinct (map fst al) \<Longrightarrow>
   set (AList.update k v al) = {p \<in> set al. fst p \<noteq> k} \<union> {(k, v)}"
  by (induction al) (auto simp: rev_image_eqI)




lemma distinct_ensure_list: "distinct (map fst m) \<Longrightarrow> distinct (map fst (ensure_list m k))"
  by (simp add: ensure_list_def Map_set_def distinct_update)

lemma distinct_push_at: "distinct (map fst m) \<Longrightarrow> distinct (map fst (push_at m k e))"
  by (simp add: push_at_def Map_set_def distinct_update split: option.splits)

lemma distinct_edges_build: "distinct (map fst (edges (build ops)))"
proof (induction ops rule: rev_induct)
  case Nil
  show ?case by (simp add: build_def MathGraph_new_def)
next
  case (snoc x xs)
  then show ?case
    by (cases x) (auto simp: build_def addNode_def addEdge_def distinct_ensure_list distinct_push_at)
qed

lemma lookup_values_distinct:
  assumes "distinct (map fst m)"
  shows "map (\<lambda>k. case map_of m k of Some l \<Rightarrow> l | None \<Rightarrow> []) (map fst m) = map snd m"
proof -
  have "(case map_of m (fst p) of Some l \<Rightarrow> l | None \<Rightarrow> []) = snd p" if "p \<in> set m" for p
    using map_of_is_SomeI[OF assms, of "fst p" "snd p"] that by simp
  then show ?thesis by simp
qed

lemma snap_edges_flatten:
  "snap_edges (exportSnapshot (build ops))
   = concat (map (getOutgoingEdges (build ops)) (Map_keys (edges (build ops))))"
proof -
  have "getOutgoingEdges (build ops)
      = (\<lambda>k. case map_of (edges (build ops)) k of Some l \<Rightarrow> l | None \<Rightarrow> [])"
    by (rule ext) (simp add: getOutgoingEdges_def Map_get_def)
  then have "map (getOutgoingEdges (build ops)) (map fst (edges (build ops)))
      = map snd (edges (build ops))"
    using lookup_values_distinct[OF distinct_edges_build[of ops]] by simp
  then show ?thesis
    by (simp only: exportSnapshot_def Map_keys_def Map_values_def Snapshot.simps)
qed

lemma exportJSON_form:
  "exportJSON num g =
     ''{'' @ [CHR 0x0A] @ ''  '' @ QuoteJSONString ''nodes'' @ '': ''
       @ SerializeJSONProperty num ''  '' ''  '' (JArray (map MathNode_json (Map_values (nodes g))))
       @ '','' @ [CHR 0x0A] @ ''  '' @ QuoteJSONString ''edges'' @ '': ''
       @ SerializeJSONProperty num ''  '' ''  '' (JArray (map GraphEdge_json (concat (Map_values (edges g)))))
       @ [CHR 0x0A] @ ''}''"
  by (simp add: exportJSON_def JSON_stringify_def Snapshot_json_def exportSnapshot_def)

subsection \<open>Snapshot round trip\<close>



subsection \<open>Snapshot format\<close>

text \<open>
  C9, as stated, asks for a newline-free text. The code calls
  \<open>JSON.stringify(..., null, 2)\<close>, which pretty-prints: already the snapshot of the empty
  graph has line breaks.
\<close>

theorem exportJSON_empty_not_newline_free:
  "\<not> newline_free (exportJSON (\<lambda>x. ''0'') (build []))"
  by (simp add: exportJSON_form newline_free_def)

text \<open>
  C9, amended. For every graph the snapshot text is the object with the two members
  \<open>nodes\<close> and \<open>edges\<close>, in this order, printed with a two-space indent (so it always
  contains line breaks); \<open>edges\<close> is the concatenation of the outgoing edge lists of all
  keys of the forward index, in insertion order of the keys.
\<close>

theorem exportJSON_pretty_printed:
  "\<not> newline_free (exportJSON num (build ops)) \<and>
   exportJSON num (build ops) =
     ''{'' @ [CHR 0x0A] @ ''  '' @ QuoteJSONString ''nodes'' @ '': ''
       @ SerializeJSONProperty num ''  '' ''  ''
           (JArray (map MathNode_json (Map_values (nodes (build ops)))))
       @ '','' @ [CHR 0x0A] @ ''  '' @ QuoteJSONString ''edges'' @ '': ''
       @ SerializeJSONProperty num ''  '' ''  ''
           (JArray (map GraphEdge_json
              (concat (map (getOutgoingEdges (build ops)) (Map_keys (edges (build ops)))))))
       @ [CHR 0x0A] @ ''}''"
  using snap_edges_flatten[of ops]
  by (simp add: exportJSON_form newline_free_def exportSnapshot_def)

section \<open>Transitive prerequisites\<close>

text \<open>IDs that can ever enter the queue: the sources of the edges of the reverse index.\<close>

definition reverse_sources :: "MathGraph \<Rightarrow> string set" where
  "reverse_sources g = set (map edge_from (concat (map snd (reverseEdges g))))"

lemma getPrerequisites_sources: "set (getPrerequisites g v) \<subseteq> reverse_sources g"
proof -
  have "set (getIncomingEdges g v) \<subseteq> set (concat (map snd (reverseEdges g)))"
  proof
    fix e assume "e \<in> set (getIncomingEdges g v)"
    then obtain l where l: "map_of (reverseEdges g) v = Some l" "e \<in> set l"
      by (cases "map_of (reverseEdges g) v") (auto simp: getIncomingEdges_def Map_get_def)
    from map_of_SomeD[OF l(1)] l(2) show "e \<in> set (concat (map snd (reverseEdges g)))"
      by force
  qed
  then show ?thesis
    by (auto simp: getPrerequisites_def reverse_sources_def)
qed

function getAllPrerequisites_loop :: "MathGraph \<Rightarrow> string list \<Rightarrow> string list \<Rightarrow> string list" where
  "getAllPrerequisites_loop g visited [] = visited"
| "getAllPrerequisites_loop g visited (current # queue) =
     (if current \<in> set visited then getAllPrerequisites_loop g visited queue
      else getAllPrerequisites_loop g (Set_add visited current)
             (queue @ getPrerequisites g current))"
  by pat_completeness auto
termination
proof (relation "measures [\<lambda>(g, visited, queue). card ((reverse_sources g \<union> set queue) - set visited),
                           \<lambda>(g, visited, queue). length queue]", goal_cases)
  case 1
  show ?case by simp
next
  case (2 g visited current queue)
  have "(reverse_sources g \<union> set queue) - set visited
        \<subseteq> (reverse_sources g \<union> set (current # queue)) - set visited" by auto
  moreover have "finite ((reverse_sources g \<union> set (current # queue)) - set visited)"
    by (simp add: reverse_sources_def)
  ultimately have "card ((reverse_sources g \<union> set queue) - set visited)
        \<le> card ((reverse_sources g \<union> set (current # queue)) - set visited)"
    by (rule card_mono[rotated])
  then show ?case by auto
next
  case (3 g visited current queue)
  have fin: "finite ((reverse_sources g \<union> set (current # queue)) - set visited)"
    by (simp add: reverse_sources_def)
  have "(reverse_sources g \<union> set (queue @ getPrerequisites g current)) - set (Set_add visited current)
        \<subset> (reverse_sources g \<union> set (current # queue)) - set visited"
    using 3 getPrerequisites_sources[of g current] by (auto simp: Set_add_def)
  then have "card ((reverse_sources g \<union> set (queue @ getPrerequisites g current)) - set (Set_add visited current))
        < card ((reverse_sources g \<union> set (current # queue)) - set visited)"
    by (rule psubset_card_mono[OF fin])
  then show ?case by simp
qed

definition getAllPrerequisites :: "MathGraph \<Rightarrow> string \<Rightarrow> string list" where
  "getAllPrerequisites g nodeId = Set_delete (getAllPrerequisites_loop g [] [nodeId]) nodeId"

definition prereqRel :: "MathGraph \<Rightarrow> (string \<times> string) set" where
  "prereqRel g = {(u, v). u \<in> set (getPrerequisites g v)}"

lemma loop_distinct:
  "distinct visited \<Longrightarrow> distinct (getAllPrerequisites_loop g visited queue)"
  by (induction g visited queue rule: getAllPrerequisites_loop.induct) (auto simp: Set_add_def)

lemma loop_sound:
  "set visited \<subseteq> {u. (u, n) \<in> (prereqRel g)\<^sup>*} \<Longrightarrow> set queue \<subseteq> {u. (u, n) \<in> (prereqRel g)\<^sup>*}
   \<Longrightarrow> set (getAllPrerequisites_loop g visited queue) \<subseteq> {u. (u, n) \<in> (prereqRel g)\<^sup>*}"
proof (induction g visited queue rule: getAllPrerequisites_loop.induct)
  case (1 g visited)
  then show ?case by simp
next
  case (2 g visited current queue)
  show ?case
  proof (cases "current \<in> set visited")
    case True
    with 2 show ?thesis by simp
  next
    case False
    have cur: "(current, n) \<in> (prereqRel g)\<^sup>*" using 2(4) by simp
    have "set (getPrerequisites g current) \<subseteq> {u. (u, n) \<in> (prereqRel g)\<^sup>*}"
      using cur by (auto simp: prereqRel_def intro: converse_rtrancl_into_rtrancl)
    with False 2 cur show ?thesis by (simp add: Set_add_def)
  qed
qed

definition closed_upto :: "MathGraph \<Rightarrow> string set \<Rightarrow> string set \<Rightarrow> bool" where
  "closed_upto g V Q \<longleftrightarrow> (\<forall>v \<in> V. set (getPrerequisites g v) \<subseteq> V \<union> Q)"

lemma loop_complete:
  "closed_upto g (set visited) (set queue) \<Longrightarrow>
   closed_upto g (set (getAllPrerequisites_loop g visited queue)) {}
   \<and> set visited \<union> set queue \<subseteq> set (getAllPrerequisites_loop g visited queue)"
proof (induction g visited queue rule: getAllPrerequisites_loop.induct)
  case (1 g visited)
  then show ?case by simp
next
  case (2 g visited current queue)
  show ?case
  proof (cases "current \<in> set visited")
    case True
    have "closed_upto g (set visited) (set queue)"
      using 2(3) True by (auto simp: closed_upto_def)
    with 2(1)[OF True] True show ?thesis by auto
  next
    case False
    have "closed_upto g (set (Set_add visited current)) (set (queue @ getPrerequisites g current))"
      using 2(3) False by (auto simp: closed_upto_def Set_add_def)
    with 2(2)[OF False] False show ?thesis by (auto simp: Set_add_def)
  qed
qed

lemma closed_contains_reach:
  assumes "closed_upto g W {}" "n \<in> W" "(u, n) \<in> (prereqRel g)\<^sup>*"
  shows "u \<in> W"
  using assms(3,1,2)
  by (induction rule: converse_rtrancl_induct) (auto simp: closed_upto_def prereqRel_def)

lemma loop_result:
  "set (getAllPrerequisites_loop g [] [n]) = {u. (u, n) \<in> (prereqRel g)\<^sup>*}"
proof
  show "set (getAllPrerequisites_loop g [] [n]) \<subseteq> {u. (u, n) \<in> (prereqRel g)\<^sup>*}"
    by (rule loop_sound) simp_all
  have c: "closed_upto g (set (getAllPrerequisites_loop g [] [n])) {}"
    and m: "n \<in> set (getAllPrerequisites_loop g [] [n])"
    using loop_complete[of g "[]" "[n]"] by (simp_all add: closed_upto_def)
  show "{u. (u, n) \<in> (prereqRel g)\<^sup>*} \<subseteq> set (getAllPrerequisites_loop g [] [n])"
    using closed_contains_reach[OF c m] by auto
qed

lemma getAllPrerequisites_set:
  "set (getAllPrerequisites g n) = {u. u \<noteq> n \<and> (u, n) \<in> (prereqRel g)\<^sup>+}"
proof -
  have "set (getAllPrerequisites g n) = {u. (u, n) \<in> (prereqRel g)\<^sup>*} - {n}"
    unfolding getAllPrerequisites_def Set_delete_def loop_result[symmetric] by simp
  then show ?thesis by (auto simp: rtrancl_eq_or_trancl)
qed

subsection \<open>The indexes of a built graph\<close>

fun added_edges :: "GraphOp list \<Rightarrow> GraphEdge list" where
  "added_edges [] = []"
| "added_edges (AddNode n # ops) = added_edges ops"
| "added_edges (AddEdge e # ops) = e # added_edges ops"

lemma added_edges_append [simp]: "added_edges (xs @ ys) = added_edges xs @ added_edges ys"
  by (induction xs rule: added_edges.induct) simp_all

definition lookup_list :: "(string, 'v list) jsmap \<Rightarrow> string \<Rightarrow> 'v list" where
  "lookup_list m k = (case map_of m k of Some l \<Rightarrow> l | None \<Rightarrow> [])"

lemma lookup_list_ensure [simp]: "lookup_list (ensure_list m k) k' = lookup_list m k'"
  by (simp add: lookup_list_def map_of_ensure_list)

lemma lookup_list_push_at:
  "map_of m k \<noteq> None \<Longrightarrow>
   lookup_list (push_at m k e) k' = lookup_list m k' @ (if k' = k then [e] else [])"
  by (auto simp: lookup_list_def push_at_def Map_get_def Map_set_def update_conv')

lemma getIncomingEdges_lookup: "getIncomingEdges g = lookup_list (reverseEdges g)"
  by (rule ext) (simp add: getIncomingEdges_def lookup_list_def Map_get_def)

lemma getOutgoingEdges_lookup: "getOutgoingEdges g = lookup_list (edges g)"
  by (rule ext) (simp add: getOutgoingEdges_def lookup_list_def Map_get_def)

lemma getIncomingEdges_build:
  "getIncomingEdges (build ops) v = filter (\<lambda>e. edge_to e = v) (added_edges ops)"
proof (induction ops rule: rev_induct)
  case Nil
  show ?case by (simp add: build_def MathGraph_new_def getIncomingEdges_def Map_get_def)
next
  case (snoc x xs)
  then show ?case
    by (cases x)
       (auto simp: build_def addNode_def addEdge_def getIncomingEdges_lookup
          lookup_list_push_at ensure_list_has)
qed

lemma getOutgoingEdges_build:
  "getOutgoingEdges (build ops) u = filter (\<lambda>e. edge_from e = u) (added_edges ops)"
proof (induction ops rule: rev_induct)
  case Nil
  show ?case by (simp add: build_def MathGraph_new_def getOutgoingEdges_def Map_get_def)
next
  case (snoc x xs)
  then show ?case
    by (cases x)
       (auto simp: build_def addNode_def addEdge_def getOutgoingEdges_lookup
          lookup_list_push_at ensure_list_has)
qed

lemma mset_allEdges_build: "mset (allEdges (build ops)) = mset (added_edges ops)"
proof (induction ops rule: rev_induct)
  case Nil
  show ?case by (simp add: build_def MathGraph_new_def allEdges_def Map_values_def)
next
  case (snoc x xs)
  then show ?case
    by (cases x) (simp_all add: build_def allEdges_addNode mset_allEdges_addEdge)
qed

lemma set_allEdges_build: "set (allEdges (build ops)) = set (added_edges ops)"
  using mset_allEdges_build[of ops] by (metis set_mset_mset)

lemma requiresRel_build:
  "requiresRel (build ops) =
     {(edge_from e, edge_to e) | e. e \<in> set (added_edges ops) \<and> edge_type e = REQUIRES}"
  by (auto simp: requiresRel_def set_allEdges_build)

lemma getPrerequisites_build:
  "set (getPrerequisites (build ops) v) = {u. (u, v) \<in> requiresRel (build ops)}"
  by (auto simp: getPrerequisites_def getIncomingEdges_build requiresRel_build)

lemma getDependents_build:
  "set (getDependents (build ops) u) = {v. (u, v) \<in> requiresRel (build ops)}"
  by (auto simp: getDependents_def getOutgoingEdges_build requiresRel_build)

lemma prereqRel_build: "prereqRel (build ops) = requiresRel (build ops)"
  by (auto simp: prereqRel_def getPrerequisites_build)


text \<open>
  C4. For every graph, cycles allowed, and every ID \<open>n\<close>, \<open>getAllPrerequisites\<close> returns (the
  function is total) exactly the IDs \<open>u \<noteq> n\<close> from which \<open>n\<close> is reached by one or more
  REQUIRES edges; the result is a set, and \<open>n\<close> itself is never in it.
\<close>

theorem getAllPrerequisites_closure:
  "set (getAllPrerequisites (build ops) n)
     = {u. u \<noteq> n \<and> (u, n) \<in> (requiresRel (build ops))\<^sup>+}
   \<and> distinct (getAllPrerequisites (build ops) n)
   \<and> n \<notin> set (getAllPrerequisites (build ops) n)"
  by (simp add: getAllPrerequisites_set prereqRel_build)
     (simp add: getAllPrerequisites_def Set_delete_def loop_distinct distinct_removeAll
        del: getAllPrerequisites_loop.simps)

section \<open>Topological sort\<close>

text \<open>
  \<open>m.get(k)!\<close> is TypeScript's non-null assertion: on an absent key the JavaScript goes on
  with \<open>undefined\<close>, which throws a TypeError at \<open>.push\<close> and at \<open>for ... of\<close> and gives
  \<open>NaN\<close> in the arithmetic. The model stops with an error at each of these places; the
  theorems below show that none is ever reached. In-degrees are integers.
\<close>

datatype error = TypeError

fun fold_err :: "('a \<Rightarrow> 's \<Rightarrow> error + 's) \<Rightarrow> 'a list \<Rightarrow> 's \<Rightarrow> error + 's" where
  "fold_err f [] s = Inr s"
| "fold_err f (x # xs) s = (case f x s of Inl e \<Rightarrow> Inl e | Inr s' \<Rightarrow> fold_err f xs s')"

type_synonym degrees = "(string, int) jsmap"
type_synonym adjacency = "(string, string list) jsmap"

definition init_entry :: "string \<Rightarrow> degrees \<times> adjacency \<Rightarrow> degrees \<times> adjacency" where
  "init_entry i st = (Map_set (fst st) i 0, Map_set (snd st) i [])"

definition add_prereq :: "string \<Rightarrow> string \<Rightarrow> degrees \<times> adjacency \<Rightarrow> error + degrees \<times> adjacency" where
  "add_prereq i prereq st =
     (case Map_get (snd st) prereq of
        None \<Rightarrow> Inl TypeError
      | Some l \<Rightarrow>
          (case Map_get (fst st) i of
             None \<Rightarrow> Inl TypeError
           | Some d \<Rightarrow> Inr (Map_set (fst st) i (d + 1), Map_set (snd st) prereq (l @ [i]))))"

definition count_prereqs ::
  "MathGraph \<Rightarrow> string list \<Rightarrow> string \<Rightarrow> degrees \<times> adjacency \<Rightarrow> error + degrees \<times> adjacency" where
  "count_prereqs g nodeIds i st =
     fold_err (add_prereq i) (filter (\<lambda>p. p \<in> set nodeIds) (getPrerequisites g i)) st"

definition build_degrees :: "MathGraph \<Rightarrow> string list \<Rightarrow> error + degrees \<times> adjacency" where
  "build_degrees g nodeIds =
     fold_err (count_prereqs g nodeIds) nodeIds (fold init_entry nodeIds ([], []))"

definition relax :: "string \<Rightarrow> degrees \<times> string list \<Rightarrow> error + degrees \<times> string list" where
  "relax neighbor st =
     (case Map_get (fst st) neighbor of
        None \<Rightarrow> Inl TypeError
      | Some d \<Rightarrow>
          (let inDegree = Map_set (fst st) neighbor (d - 1)
           in if Map_get inDegree neighbor = Some 0
              then Inr (inDegree, snd st @ [neighbor])
              else Inr (inDegree, snd st)))"

definition positive_entries :: "degrees \<Rightarrow> nat" where
  "positive_entries m = length (filter (\<lambda>p. 0 < snd p) m)"

lemma positive_entries_update:
  "map_of m k = Some d \<Longrightarrow>
   positive_entries (AList.update k v m) + (if 0 < d then 1 else 0)
     = positive_entries m + (if 0 < v then 1 else 0)"
  by (induction m) (auto simp: positive_entries_def)

lemma relax_measure:
  "relax n st = Inr st' \<Longrightarrow>
   length (snd st') + positive_entries (fst st') \<le> length (snd st) + positive_entries (fst st)"
proof -
  assume a: "relax n st = Inr st'"
  then obtain d where d: "map_of (fst st) n = Some d"
    by (cases "map_of (fst st) n") (auto simp: relax_def Map_get_def)
  from positive_entries_update[OF d, of "d - 1"] a d show ?thesis
    by (auto simp: relax_def Map_get_def Map_set_def update_conv' Let_def split: if_splits)
qed

lemma fold_relax_measure:
  "fold_err relax ns st = Inr st' \<Longrightarrow>
   length (snd st') + positive_entries (fst st') \<le> length (snd st) + positive_entries (fst st)"
proof (induction ns arbitrary: st)
  case Nil
  then show ?case by simp
next
  case (Cons n ns)
  then obtain st1 where s1: "relax n st = Inr st1" and s2: "fold_err relax ns st1 = Inr st'"
    by (cases "relax n st") auto
  from relax_measure[OF s1] Cons.IH[OF s2] show ?case by linarith
qed

function kahn_loop :: "adjacency \<Rightarrow> degrees \<Rightarrow> string list \<Rightarrow> string list \<Rightarrow> error + string list" where
  "kahn_loop graph inDegree [] result = Inr result"
| "kahn_loop graph inDegree (current # queue) result =
     (case Map_get graph current of
        None \<Rightarrow> Inl TypeError
      | Some neighbors \<Rightarrow>
          (case fold_err relax neighbors (inDegree, queue) of
             Inl e \<Rightarrow> Inl e
           | Inr st \<Rightarrow> kahn_loop graph (fst st) (snd st) (result @ [current])))"
  by pat_completeness auto
termination
proof (relation "measure (\<lambda>(graph, inDegree, queue, result). length queue + positive_entries inDegree)",
    goal_cases)
  case 1
  show ?case by simp
next
  case (2 graph inDegree current queue result neighbors st)
  from fold_relax_measure[OF 2(2)] show ?case by simp
qed

definition topologicalSort :: "MathGraph \<Rightarrow> string list \<Rightarrow> error + string list" where
  "topologicalSort g nodeIds =
     (case build_degrees g nodeIds of
        Inl e \<Rightarrow> Inl e
      | Inr st \<Rightarrow>
          kahn_loop (snd st) (fst st) (map fst (filter (\<lambda>p. snd p = 0) (fst st))) [])"

subsection \<open>In-degrees and adjacency\<close>

definition deg_of :: "degrees \<Rightarrow> string \<Rightarrow> int" where
  "deg_of m v = (case map_of m v of Some d \<Rightarrow> d | None \<Rightarrow> 0)"

definition adj_of :: "adjacency \<Rightarrow> string \<Rightarrow> string list" where
  "adj_of m u = (case map_of m u of Some l \<Rightarrow> l | None \<Rightarrow> [])"

definition in_subset_prereqs :: "MathGraph \<Rightarrow> string list \<Rightarrow> string \<Rightarrow> string list" where
  "in_subset_prereqs g nodeIds v = filter (\<lambda>p. p \<in> set nodeIds) (getPrerequisites g v)"

lemma count_list_replicate: "count_list (replicate n x) y = (if x = y then n else 0)"
  by (induction n) auto

lemma keys_update_present:
  "k \<in> fst ` set al \<Longrightarrow> map fst (AList.update k v al) = map fst al"
  by (simp add: update_keys)

lemma fold_init_entry:
  "fold init_entry ids st = st' \<Longrightarrow>
     (\<forall>k. map_of (fst st') k = (if k \<in> set ids then Some 0 else map_of (fst st) k))
   \<and> (\<forall>k. map_of (snd st') k = (if k \<in> set ids then Some [] else map_of (snd st) k))
   \<and> (distinct (map fst (fst st)) \<longrightarrow> distinct (map fst (fst st')))"
proof (induction ids arbitrary: st)
  case Nil
  then show ?case by auto
next
  case (Cons i ids)
  from Cons.prems have "fold init_entry ids (init_entry i st) = st'" by simp
  from Cons.IH[OF this] show ?case
    by (auto simp: init_entry_def Map_set_def update_conv' distinct_update)
qed

lemma fold_add_prereq:
  assumes "map_of I i = Some d" "set ps \<subseteq> dom (map_of G)"
  shows "\<exists>I' G'. fold_err (add_prereq i) ps (I, G) = Inr (I', G')
     \<and> map fst I' = map fst I \<and> dom (map_of G') = dom (map_of G)
     \<and> (\<forall>k. map_of I' k = (if k = i then Some (d + int (length ps)) else map_of I k))
     \<and> (\<forall>u. adj_of G' u = adj_of G u @ replicate (count_list ps u) i)"
  using assms
proof (induction ps arbitrary: I G d)
  case Nil
  then show ?case by auto
next
  case (Cons p ps)
  from Cons.prems obtain l where l: "map_of G p = Some l" by auto
  let ?I1 = "AList.update i (d + 1) I" and ?G1 = "AList.update p (l @ [i]) G"
  have step: "add_prereq i p (I, G) = Inr (?I1, ?G1)"
    using l Cons.prems(1) by (simp add: add_prereq_def Map_get_def Map_set_def)
  have i1: "map_of ?I1 i = Some (d + 1)" by (simp add: update_conv')
  have g1: "set ps \<subseteq> dom (map_of ?G1)" using Cons.prems(2) by (auto simp: update_conv')
  from Cons.IH[OF i1 g1] obtain I' G' where
    r: "fold_err (add_prereq i) ps (?I1, ?G1) = Inr (I', G')"
    and k: "map fst I' = map fst ?I1" and dg: "dom (map_of G') = dom (map_of ?G1)"
    and mi: "\<forall>k. map_of I' k = (if k = i then Some (d + 1 + int (length ps)) else map_of ?I1 k)"
    and ad: "\<forall>u. adj_of G' u = adj_of ?G1 u @ replicate (count_list ps u) i"
    by blast
  have ik: "i \<in> fst ` set I" using Cons.prems(1) by (metis map_of_eq_None_iff option.distinct(1))
  have "map fst I' = map fst I" using k ik by (simp add: keys_update_present)
  moreover have "dom (map_of G') = dom (map_of G)" using dg l by (auto simp: update_conv')
  moreover have "\<forall>k. map_of I' k = (if k = i then Some (d + int (length (p # ps))) else map_of I k)"
    using mi by (auto simp: update_conv')
  moreover have "\<forall>u. adj_of G' u = adj_of G u @ replicate (count_list (p # ps) u) i"
    using ad l by (auto simp: adj_of_def update_conv' replicate_app_Cons_same)
  ultimately show ?case using step r by simp
qed

lemma fold_count_prereqs:
  assumes "set ids \<subseteq> set S" "dom (map_of I) = set S" "dom (map_of G) = set S"
  shows "\<exists>I' G'. fold_err (count_prereqs g S) ids (I, G) = Inr (I', G')
     \<and> map fst I' = map fst I \<and> dom (map_of I') = set S \<and> dom (map_of G') = set S
     \<and> (\<forall>v. deg_of I' v = deg_of I v + int (count_list ids v * length (in_subset_prereqs g S v)))
     \<and> (\<forall>u v. count_list (adj_of G' u) v
            = count_list (adj_of G u) v + count_list ids v * count_list (in_subset_prereqs g S v) u)"
  using assms
proof (induction ids arbitrary: I G)
  case Nil
  then show ?case by simp
next
  case (Cons i ids)
  let ?ps = "in_subset_prereqs g S i"
  have "i \<in> dom (map_of I)" using Cons.prems(1,2) by simp
  then obtain d where d: "map_of I i = Some d" by blast
  have ps: "set ?ps \<subseteq> dom (map_of G)" using Cons.prems(3) by (auto simp: in_subset_prereqs_def)
  from fold_add_prereq[OF d ps] obtain I1 G1 where
    s1: "fold_err (add_prereq i) ?ps (I, G) = Inr (I1, G1)"
    and k1: "map fst I1 = map fst I" and dg1: "dom (map_of G1) = dom (map_of G)"
    and mi1: "\<forall>k. map_of I1 k = (if k = i then Some (d + int (length ?ps)) else map_of I k)"
    and ad1: "\<forall>u. adj_of G1 u = adj_of G u @ replicate (count_list ?ps u) i"
    by blast
  have di1: "dom (map_of I1) = set S" using mi1 Cons.prems(1,2) by (auto simp: dom_def)
  have dg1': "dom (map_of G1) = set S" using dg1 Cons.prems(3) by simp
  have ids: "set ids \<subseteq> set S" using Cons.prems(1) by simp
  from Cons.IH[OF ids di1 dg1'] obtain I' G' where
    r: "fold_err (count_prereqs g S) ids (I1, G1) = Inr (I', G')"
    and k: "map fst I' = map fst I1" and di: "dom (map_of I') = set S"
    and dg: "dom (map_of G') = set S"
    and dv: "\<forall>v. deg_of I' v = deg_of I1 v + int (count_list ids v * length (in_subset_prereqs g S v))"
    and ad: "\<forall>u v. count_list (adj_of G' u) v
            = count_list (adj_of G1 u) v + count_list ids v * count_list (in_subset_prereqs g S v) u"
    by blast
  have step: "count_prereqs g S i (I, G) = Inr (I1, G1)"
    using s1 by (simp add: count_prereqs_def in_subset_prereqs_def)
  have "\<forall>v. deg_of I' v = deg_of I v + int (count_list (i # ids) v * length (in_subset_prereqs g S v))"
    using dv mi1 d by (auto simp: deg_of_def algebra_simps)
  moreover have "\<forall>u v. count_list (adj_of G' u) v
        = count_list (adj_of G u) v + count_list (i # ids) v * count_list (in_subset_prereqs g S v) u"
    using ad ad1 by (auto simp: count_list_replicate algebra_simps)
  ultimately show ?case using step r k k1 di dg by simp
qed

lemma build_degrees_result:
  "\<exists>I G. build_degrees g S = Inr (I, G) \<and> distinct (map fst I)
     \<and> dom (map_of I) = set S \<and> dom (map_of G) = set S
     \<and> (\<forall>v. deg_of I v = int (count_list S v * length (in_subset_prereqs g S v)))
     \<and> (\<forall>u v. count_list (adj_of G u) v = count_list S v * count_list (in_subset_prereqs g S v) u)"
proof -
  obtain I0 G0 where st0: "fold init_entry S ([], []) = (I0, G0)" by (cases "fold init_entry S ([], [])")
  from fold_init_entry[OF st0] have
    m0: "\<And>k. map_of I0 k = (if k \<in> set S then Some 0 else None)"
    and g0: "\<And>k. map_of G0 k = (if k \<in> set S then Some [] else None)"
    and d0: "distinct (map fst I0)" by simp_all
  have di: "dom (map_of I0) = set S" and dg: "dom (map_of G0) = set S"
    using m0 g0 by (auto simp: dom_def)
  from fold_count_prereqs[OF subset_refl di dg, of g] obtain I G where
    r: "fold_err (count_prereqs g S) S (I0, G0) = Inr (I, G)"
    and k: "map fst I = map fst I0" and di': "dom (map_of I) = set S" and dg': "dom (map_of G) = set S"
    and dv: "\<forall>v. deg_of I v = deg_of I0 v + int (count_list S v * length (in_subset_prereqs g S v))"
    and ad: "\<forall>u v. count_list (adj_of G u) v
            = count_list (adj_of G0 u) v + count_list S v * count_list (in_subset_prereqs g S v) u"
    by blast
  have "deg_of I0 v = 0" for v by (simp add: deg_of_def m0)
  moreover have "adj_of G0 u = []" for u by (simp add: adj_of_def g0)
  ultimately show ?thesis using r k d0 di' dg' dv ad st0
    by (simp add: build_degrees_def)
qed

subsection \<open>The queue loop\<close>

lemma fold_relax:
  assumes "set ns \<subseteq> dom (map_of I)" "\<forall>v \<in> set ns. int (count_list ns v) \<le> deg_of I v"
  shows "\<exists>I' ex. fold_err relax ns (I, Q) = Inr (I', Q @ ex)
     \<and> dom (map_of I') = dom (map_of I)
     \<and> (\<forall>v. deg_of I' v = deg_of I v - int (count_list ns v))
     \<and> distinct ex \<and> set ex = {v \<in> set ns. deg_of I v = int (count_list ns v)}"
  using assms
proof (induction ns arbitrary: I Q)
  case Nil
  then show ?case by simp
next
  case (Cons n ns)
  from Cons.prems(1) obtain d where d: "map_of I n = Some d" by auto
  have dn: "deg_of I n = d" using d by (simp add: deg_of_def)
  have d1: "1 + int (count_list ns n) \<le> d" using Cons.prems(2) dn by simp
  let ?I1 = "AList.update n (d - 1) I"
  let ?Q1 = "if d = 1 then Q @ [n] else Q"
  have step: "relax n (I, Q) = Inr (?I1, ?Q1)"
    using d by (simp add: relax_def Map_get_def Map_set_def update_conv')
  have deg1: "deg_of ?I1 v = (if v = n then d - 1 else deg_of I v)" for v
    by (simp add: deg_of_def update_conv')
  have p1: "set ns \<subseteq> dom (map_of ?I1)" using Cons.prems(1) by (auto simp: update_conv')
  have p2: "\<forall>v \<in> set ns. int (count_list ns v) \<le> deg_of ?I1 v"
    using Cons.prems(2) d1 by (auto simp: deg1)
  from Cons.IH[OF p1 p2, of ?Q1] obtain I' ex where
    r: "fold_err relax ns (?I1, ?Q1) = Inr (I', ?Q1 @ ex)"
    and dm: "dom (map_of I') = dom (map_of ?I1)"
    and dv: "\<forall>v. deg_of I' v = deg_of ?I1 v - int (count_list ns v)"
    and de: "distinct ex"
    and se: "set ex = {v \<in> set ns. deg_of ?I1 v = int (count_list ns v)}"
    by blast
  have dm': "dom (map_of I') = dom (map_of I)" using dm d by (auto simp: update_conv')
  have dv': "\<forall>v. deg_of I' v = deg_of I v - int (count_list (n # ns) v)"
    using dv dn by (auto simp: deg1)
  have mem: "v \<in> set ex \<longleftrightarrow> v \<in> set ns \<and> deg_of ?I1 v = int (count_list ns v)" for v
    unfolding se by blast
  show ?case
  proof (cases "d = 1")
    case True
    then have "count_list ns n = 0" using d1 by linarith
    then have nn: "n \<notin> set ns" by (simp add: count_list_0_iff)
    have res: "fold_err relax (n # ns) (I, Q) = Inr (I', Q @ (n # ex))"
      using step r True by simp
    have "n \<notin> set ex" using mem[of n] nn by blast
    then have dist: "distinct (n # ex)" using de by simp
    have "v \<in> set (n # ex) \<longleftrightarrow> v \<in> set (n # ns) \<and> deg_of I v = int (count_list (n # ns) v)" for v
    proof (cases "v = n")
      case True
      then show ?thesis using dn \<open>d = 1\<close> \<open>count_list ns n = 0\<close> by simp
    next
      case False
      then show ?thesis using mem[of v] deg1[of v] by simp
    qed
    then have "set (n # ex) = {v \<in> set (n # ns). deg_of I v = int (count_list (n # ns) v)}"
      by blast
    then show ?thesis using res dm' dv' dist by blast
  next
    case False
    have res: "fold_err relax (n # ns) (I, Q) = Inr (I', Q @ ex)"
      using step r False by simp
    have "v \<in> set ex \<longleftrightarrow> v \<in> set (n # ns) \<and> deg_of I v = int (count_list (n # ns) v)" for v
    proof (cases "v = n")
      case True
      have "n \<in> set ns" if "d = 1 + int (count_list ns n)"
      proof -
        from that False have "count_list ns n \<noteq> 0" by linarith
        then show ?thesis by (simp add: count_list_0_iff)
      qed
      then show ?thesis using mem[of n] deg1[of n] dn True by auto
    next
      case False
      then show ?thesis using mem[of v] deg1[of v] by simp
    qed
    then have "set ex = {v \<in> set (n # ns). deg_of I v = int (count_list (n # ns) v)}"
      by blast
    then show ?thesis using res dm' dv' de by blast
  qed
qed

definition topo_order :: "adjacency \<Rightarrow> string set \<Rightarrow> string list \<Rightarrow> bool" where
  "topo_order G D out \<longleftrightarrow>
     (\<forall>i < length out. \<forall>u \<in> D. out ! i \<in> set (adj_of G u) \<longrightarrow> u \<in> set (take i out))"

definition kahn_inv :: "adjacency \<Rightarrow> string set \<Rightarrow> degrees \<Rightarrow> string list \<Rightarrow> string list \<Rightarrow> bool" where
  "kahn_inv G D I Q R \<longleftrightarrow>
     dom (map_of I) = D \<and> distinct (R @ Q) \<and> set (R @ Q) \<subseteq> D
   \<and> (\<forall>v \<in> D. deg_of I v = int (\<Sum>u \<in> D - set R. count_list (adj_of G u) v))
   \<and> (\<forall>v \<in> D. v \<in> set (R @ Q) \<longleftrightarrow> deg_of I v = 0)
   \<and> topo_order G D R"

lemma kahn_inv_step:
  assumes fin: "finite D" and dg: "dom (map_of G) = D" and sub: "\<forall>u. set (adj_of G u) \<subseteq> D"
    and inv: "kahn_inv G D I (c # rest) R"
  shows "\<exists>nbrs I' ex. Map_get G c = Some nbrs
     \<and> fold_err relax nbrs (I, rest) = Inr (I', rest @ ex)
     \<and> kahn_inv G D I' (rest @ ex) (R @ [c])"
proof -
  from inv have domI: "dom (map_of I) = D" and dist: "distinct (R @ c # rest)"
    and inD: "set (R @ c # rest) \<subseteq> D"
    and deg: "\<And>v. v \<in> D \<Longrightarrow> deg_of I v = int (\<Sum>u \<in> D - set R. count_list (adj_of G u) v)"
    and zero: "\<And>v. v \<in> D \<Longrightarrow> v \<in> set (R @ c # rest) \<longleftrightarrow> deg_of I v = 0"
    and topo: "topo_order G D R"
    by (auto simp: kahn_inv_def)
  have cD: "c \<in> D" and cR: "c \<notin> set R" using inD dist by auto
  then obtain nbrs where nb: "map_of G c = Some nbrs" using dg by auto
  have adjc: "adj_of G c = nbrs" using nb by (simp add: adj_of_def)
  have nsub: "set nbrs \<subseteq> D" using sub adjc by auto
  have finR: "finite (D - set R)" using fin by simp
  have split: "(\<Sum>u \<in> D - set R. count_list (adj_of G u) v)
      = count_list nbrs v + (\<Sum>u \<in> D - set (R @ [c]). count_list (adj_of G u) v)" for v
  proof -
    have "D - set (R @ [c]) = (D - set R) - {c}" by auto
    then show ?thesis using sum.remove[OF finR, of c "\<lambda>u. count_list (adj_of G u) v"] cD cR adjc
      by simp
  qed
  have lev: "int (count_list nbrs v) \<le> deg_of I v" if "v \<in> D" for v
  proof -
    have "deg_of I v = int (count_list nbrs v + (\<Sum>u \<in> D - set (R @ [c]). count_list (adj_of G u) v))"
      by (simp only: deg[OF that] split)
    then show ?thesis by linarith
  qed
  have le: "\<forall>v \<in> set nbrs. int (count_list nbrs v) \<le> deg_of I v"
    using nsub lev by blast
  have "set nbrs \<subseteq> dom (map_of I)" using nsub domI by simp
  from fold_relax[OF this le, of rest] obtain I' ex where
    r: "fold_err relax nbrs (I, rest) = Inr (I', rest @ ex)"
    and dm: "dom (map_of I') = dom (map_of I)"
    and dv: "\<And>v. deg_of I' v = deg_of I v - int (count_list nbrs v)"
    and de: "distinct ex"
    and se: "set ex = {v \<in> set nbrs. deg_of I v = int (count_list nbrs v)}"
    by blast
  have pos: "0 < count_list nbrs v" if "v \<in> set nbrs" for v
    using that count_list_0_iff[of nbrs v] by auto
  have exD: "set ex \<subseteq> D" using se nsub by auto
  have exfresh: "set ex \<inter> set (R @ c # rest) = {}"
  proof -
    have "v \<notin> set (R @ c # rest)" if "v \<in> set ex" for v
    proof -
      from that se have "v \<in> set nbrs" "deg_of I v = int (count_list nbrs v)" by auto
      with pos have "deg_of I v \<noteq> 0" by fastforce
      moreover have "v \<in> D" using that exD by auto
      ultimately show ?thesis using zero by blast
    qed
    then show ?thesis by auto
  qed
  have i1: "dom (map_of I') = D" using dm domI by simp
  have i2: "distinct ((R @ [c]) @ rest @ ex)" using dist de exfresh by auto
  have i3: "set ((R @ [c]) @ rest @ ex) \<subseteq> D" using inD exD by auto
  have i4: "\<forall>v \<in> D. deg_of I' v = int (\<Sum>u \<in> D - set (R @ [c]). count_list (adj_of G u) v)"
  proof
    fix v assume vD: "v \<in> D"
    have "deg_of I v = int (count_list nbrs v + (\<Sum>u \<in> D - set (R @ [c]). count_list (adj_of G u) v))"
      by (simp only: deg[OF vD] split)
    then show "deg_of I' v = int (\<Sum>u \<in> D - set (R @ [c]). count_list (adj_of G u) v)"
      using dv[of v] by linarith
  qed
  have i5: "\<forall>v \<in> D. v \<in> set ((R @ [c]) @ rest @ ex) \<longleftrightarrow> deg_of I' v = 0"
  proof
    fix v assume vD: "v \<in> D"
    have c0: "count_list nbrs v = 0 \<longleftrightarrow> v \<notin> set nbrs" by (simp add: count_list_0_iff)
    note lev = lev[OF vD]
    have "v \<in> set ((R @ [c]) @ rest @ ex) \<longleftrightarrow> v \<in> set (R @ c # rest) \<or> v \<in> set ex" by auto
    also have "\<dots> \<longleftrightarrow> deg_of I v = 0 \<or> (v \<in> set nbrs \<and> deg_of I v = int (count_list nbrs v))"
      using zero[OF vD] se by simp
    also have "\<dots> \<longleftrightarrow> deg_of I v = int (count_list nbrs v)"
      using lev c0 by (cases "v \<in> set nbrs") auto
    also have "\<dots> \<longleftrightarrow> deg_of I' v = 0" using dv[of v] by auto
    finally show "v \<in> set ((R @ [c]) @ rest @ ex) \<longleftrightarrow> deg_of I' v = 0" .
  qed
  have i6: "topo_order G D (R @ [c])"
    unfolding topo_order_def
  proof (intro allI impI ballI)
    fix i u assume i: "i < length (R @ [c])" and uD: "u \<in> D"
      and m: "(R @ [c]) ! i \<in> set (adj_of G u)"
    show "u \<in> set (take i (R @ [c]))"
    proof (cases "i < length R")
      case True
      with topo uD m show ?thesis by (auto simp: topo_order_def nth_append)
    next
      case False
      with i have il: "i = length R" by simp
      with m have cm: "c \<in> set (adj_of G u)" by simp
      have "deg_of I c = 0" using zero[OF cD] by simp
      then have "(\<Sum>u \<in> D - set R. count_list (adj_of G u) c) = 0" using deg[OF cD] by linarith
      then have "\<forall>u \<in> D - set R. count_list (adj_of G u) c = 0" using finR by simp
      then have "u \<in> set R" using cm uD by (auto simp: count_list_0_iff)
      then show ?thesis using il by simp
    qed
  qed
  have "kahn_inv G D I' (rest @ ex) (R @ [c])"
    unfolding kahn_inv_def using i1 i2 i3 i4 i5 i6 by blast
  then show ?thesis using nb r by (simp add: Map_get_def)
qed

lemma kahn_loop_correct:
  assumes "finite D" "dom (map_of G) = D" "\<forall>u. set (adj_of G u) \<subseteq> D" "kahn_inv G D I Q R"
  shows "\<exists>out. kahn_loop G I Q R = Inr out \<and> distinct out \<and> set out \<subseteq> D \<and> topo_order G D out"
  using assms
proof (induction G I Q R rule: kahn_loop.induct)
  case (1 graph inDegree result)
  then show ?case by (auto simp: kahn_inv_def)
next
  case (2 graph inDegree current queue result)
  from kahn_inv_step[OF 2(2,3,4,5)] obtain nbrs I' ex where
    nb: "Map_get graph current = Some nbrs"
    and r: "fold_err relax nbrs (inDegree, queue) = Inr (I', queue @ ex)"
    and inv': "kahn_inv graph D I' (queue @ ex) (result @ [current])"
    by blast
  from 2(1)[OF nb r] 2(2,3,4) inv'
  obtain out where "kahn_loop graph I' (queue @ ex) (result @ [current]) = Inr out"
    "distinct out" "set out \<subseteq> D" "topo_order graph D out" by auto
  then show ?case using nb r by simp
qed

lemma adj_member:
  assumes "\<forall>u v. count_list (adj_of G u) v = count_list S v * count_list (in_subset_prereqs g S v) u"
  shows "v \<in> set (adj_of G u) \<longleftrightarrow> v \<in> set S \<and> u \<in> set S \<and> u \<in> set (getPrerequisites g v)"
proof -
  have "v \<in> set (adj_of G u) \<longleftrightarrow> count_list (adj_of G u) v \<noteq> 0" by (simp add: count_list_0_iff)
  also have "\<dots> \<longleftrightarrow> count_list S v \<noteq> 0 \<and> count_list (in_subset_prereqs g S v) u \<noteq> 0"
    using assms by simp
  also have "\<dots> \<longleftrightarrow> v \<in> set S \<and> u \<in> set (in_subset_prereqs g S v)"
    by (simp add: count_list_0_iff)
  finally show ?thesis by (auto simp: in_subset_prereqs_def)
qed

lemma topologicalSort_result:
  "\<exists>out. topologicalSort g S = Inr out \<and> distinct out \<and> set out \<subseteq> set S
     \<and> (\<forall>i < length out. \<forall>u \<in> set S.
           u \<in> set (getPrerequisites g (out ! i)) \<longrightarrow> u \<in> set (take i out))"
proof -
  from build_degrees_result[of g S] obtain I G where
    bd: "build_degrees g S = Inr (I, G)" and dk: "distinct (map fst I)"
    and di: "dom (map_of I) = set S" and dg: "dom (map_of G) = set S"
    and dv: "\<And>v. deg_of I v = int (count_list S v * length (in_subset_prereqs g S v))"
    and ad: "\<forall>u v. count_list (adj_of G u) v = count_list S v * count_list (in_subset_prereqs g S v) u"
    by blast
  note am = adj_member[OF ad]
  let ?Q = "map fst (filter (\<lambda>p. snd p = 0) I)"
  have sub: "\<forall>u. set (adj_of G u) \<subseteq> set S" using am by blast
  have dq: "distinct ?Q" using dk by (simp add: distinct_map_filter)
  have keys: "fst ` set I = set S" using di by (simp add: dom_map_of_conv_image_fst)
  have qs: "set ?Q \<subseteq> set S" using keys by auto
  have sums: "deg_of I v = int (\<Sum>u \<in> set S - set []. count_list (adj_of G u) v)" for v
  proof -
    have "set (in_subset_prereqs g S v) \<subseteq> set S" by (auto simp: in_subset_prereqs_def)
    then have "(\<Sum>u \<in> set S. count_list (in_subset_prereqs g S v) u) = length (in_subset_prereqs g S v)"
      by (rule sum_count_set) simp
    then have "(\<Sum>u \<in> set S. count_list (adj_of G u) v)
        = count_list S v * length (in_subset_prereqs g S v)"
      using ad by (simp add: sum_distrib_left[symmetric])
    then show ?thesis using dv by simp
  qed
  have zero: "v \<in> set ?Q \<longleftrightarrow> deg_of I v = 0" if "v \<in> set S" for v
  proof -
    from that di obtain d where d: "map_of I v = Some d" by auto
    have "v \<in> set ?Q \<longleftrightarrow> (v, 0) \<in> set I" by force
    also have "\<dots> \<longleftrightarrow> map_of I v = Some 0" using dk by simp
    also have "\<dots> \<longleftrightarrow> deg_of I v = 0" using d by (simp add: deg_of_def)
    finally show ?thesis .
  qed
  have inv: "kahn_inv G (set S) I ?Q []"
    unfolding kahn_inv_def topo_order_def using di dq qs sums zero by simp
  from kahn_loop_correct[OF _ dg sub inv] obtain out where
    r: "kahn_loop G I ?Q [] = Inr out" and d: "distinct out" and s: "set out \<subseteq> set S"
    and t: "topo_order G (set S) out" by auto
  have "topologicalSort g S = Inr out" using bd r by (simp add: topologicalSort_def)
  moreover have "\<forall>i < length out. \<forall>u \<in> set S.
           u \<in> set (getPrerequisites g (out ! i)) \<longrightarrow> u \<in> set (take i out)"
    using t s am unfolding topo_order_def by (metis nth_mem subsetD)
  ultimately show ?thesis using d s by blast
qed

section \<open>Properties of the topological sort\<close>

text \<open>The REQUIRES edges with both endpoints in the list.\<close>

definition induced :: "MathGraph \<Rightarrow> string list \<Rightarrow> (string \<times> string) set" where
  "induced g nodeIds = {(a, b). (a, b) \<in> requiresRel g \<and> a \<in> set nodeIds \<and> b \<in> set nodeIds}"

lemma in_subset_prereqs_build:
  "length (in_subset_prereqs (build ops) S v)
     = length (filter (\<lambda>e. edge_type e = REQUIRES \<and> edge_from e \<in> set S \<and> edge_to e = v)
         (added_edges ops))"
proof -
  have "length (in_subset_prereqs (build ops) S v)
      = length (filter (\<lambda>e. edge_from e \<in> set S)
          (filter (\<lambda>e. edge_type e = REQUIRES) (filter (\<lambda>e. edge_to e = v) (added_edges ops))))"
    by (simp add: in_subset_prereqs_def getPrerequisites_def getIncomingEdges_build filter_map comp_def)
  also have "\<dots> = length (filter (\<lambda>e. edge_type e = REQUIRES \<and> edge_from e \<in> set S \<and> edge_to e = v)
         (added_edges ops))"
    by (simp add: conj_commute conj_left_commute)
  finally show ?thesis .
qed

text \<open>
  C1. For every graph and every list \<open>S\<close> of node IDs, \<open>topologicalSort\<close> returns a list
  without repetition of IDs of \<open>S\<close> in which, for every REQUIRES edge from \<open>a\<close> to \<open>b\<close> with
  both in the output, \<open>a\<close> stands at a strictly smaller index than \<open>b\<close>. The in-degree of
  \<open>v\<close> counts only the REQUIRES edges into \<open>v\<close> whose source is in \<open>S\<close> (once per occurrence
  of \<open>v\<close> in \<open>S\<close>), and the adjacency list of \<open>u\<close> holds exactly the \<open>v\<close> in \<open>S\<close> with a
  REQUIRES edge from \<open>u\<close> in \<open>S\<close>.
\<close>

theorem topologicalSort_respects_requires:
  "(\<exists>out. topologicalSort (build ops) S = Inr out \<and> distinct out \<and> set out \<subseteq> set S
      \<and> (\<forall>i j. i < length out \<and> j < length out \<and> (out ! i, out ! j) \<in> requiresRel (build ops)
            \<longrightarrow> i < j))
   \<and> (\<exists>inDegree graph. build_degrees (build ops) S = Inr (inDegree, graph)
      \<and> (\<forall>v. Map_get inDegree v =
            (if v \<in> set S
             then Some (int (count_list S v
                    * length (filter (\<lambda>e. edge_type e = REQUIRES \<and> edge_from e \<in> set S
                                \<and> edge_to e = v) (added_edges ops))))
             else None))
      \<and> (\<forall>u v. v \<in> set (adj_of graph u)
            \<longleftrightarrow> u \<in> set S \<and> v \<in> set S \<and> (u, v) \<in> requiresRel (build ops)))"
proof
  from topologicalSort_result[of "build ops" S] obtain out where
    r: "topologicalSort (build ops) S = Inr out" and d: "distinct out" and s: "set out \<subseteq> set S"
    and t: "\<And>i u. i < length out \<Longrightarrow> u \<in> set S \<Longrightarrow>
           u \<in> set (getPrerequisites (build ops) (out ! i)) \<Longrightarrow> u \<in> set (take i out)"
    by blast
  have "i < j" if "i < length out" "j < length out" "(out ! i, out ! j) \<in> requiresRel (build ops)" for i j
  proof -
    have "out ! i \<in> set S" using that(1) s by auto
    moreover have "out ! i \<in> set (getPrerequisites (build ops) (out ! j))"
      using that(3) by (simp add: getPrerequisites_build)
    ultimately have "out ! i \<in> set (take j out)" using t[OF that(2)] by blast
    then obtain k where k: "k < j" "k < length out" "out ! k = out ! i"
      by (auto simp: in_set_conv_nth)
    with d that(1) have "k = i" by (simp add: nth_eq_iff_index_eq)
    with k show ?thesis by simp
  qed
  with r d s show "\<exists>out. topologicalSort (build ops) S = Inr out \<and> distinct out \<and> set out \<subseteq> set S
      \<and> (\<forall>i j. i < length out \<and> j < length out \<and> (out ! i, out ! j) \<in> requiresRel (build ops)
            \<longrightarrow> i < j)" by blast
next
  from build_degrees_result[of "build ops" S] obtain I G where
    bd: "build_degrees (build ops) S = Inr (I, G)"
    and di: "dom (map_of I) = set S"
    and dv: "\<And>v. deg_of I v = int (count_list S v * length (in_subset_prereqs (build ops) S v))"
    and ad: "\<forall>u v. count_list (adj_of G u) v
               = count_list S v * count_list (in_subset_prereqs (build ops) S v) u"
    by blast
  have "Map_get I v =
            (if v \<in> set S
             then Some (int (count_list S v
                    * length (filter (\<lambda>e. edge_type e = REQUIRES \<and> edge_from e \<in> set S
                                \<and> edge_to e = v) (added_edges ops))))
             else None)" for v
  proof (cases "v \<in> set S")
    case True
    with di obtain d where "map_of I v = Some d" by auto
    then show ?thesis using dv[of v] True
      by (simp add: deg_of_def Map_get_def in_subset_prereqs_build)
  next
    case False
    with di have "map_of I v = None" by auto
    then show ?thesis using False by (simp add: Map_get_def)
  qed
  moreover have "v \<in> set (adj_of G u)
            \<longleftrightarrow> u \<in> set S \<and> v \<in> set S \<and> (u, v) \<in> requiresRel (build ops)" for u v
    using adj_member[OF ad, of v u] by (auto simp: getPrerequisites_build)
  ultimately show "\<exists>inDegree graph. build_degrees (build ops) S = Inr (inDegree, graph)
      \<and> (\<forall>v. Map_get inDegree v =
            (if v \<in> set S
             then Some (int (count_list S v
                    * length (filter (\<lambda>e. edge_type e = REQUIRES \<and> edge_from e \<in> set S
                                \<and> edge_to e = v) (added_edges ops))))
             else None))
      \<and> (\<forall>u v. v \<in> set (adj_of graph u)
            \<longleftrightarrow> u \<in> set S \<and> v \<in> set S \<and> (u, v) \<in> requiresRel (build ops))"
    using bd by blast
qed

lemma before_in_output:
  assumes d: "distinct out"
    and t: "\<And>i u. i < length out \<Longrightarrow> u \<in> set S \<Longrightarrow>
           u \<in> set (getPrerequisites (build ops) (out ! i)) \<Longrightarrow> u \<in> set (take i out)"
    and p: "(a, b) \<in> (induced (build ops) S)\<^sup>+" and b: "b \<in> set out"
  shows "\<exists>i j. i < j \<and> j < length out \<and> out ! i = a \<and> out ! j = b"
  using p b
proof (induction rule: trancl_induct)
  case (base y)
  then obtain j where j: "j < length out" "out ! j = y" by (auto simp: in_set_conv_nth)
  from base have "a \<in> set S" "a \<in> set (getPrerequisites (build ops) y)"
    by (auto simp: induced_def getPrerequisites_build)
  with t[OF j(1)] j(2) have "a \<in> set (take j out)" by simp
  then obtain i where "i < j" "out ! i = a" using j(1) by (auto simp: in_set_conv_nth)
  with j show ?case by blast
next
  case (step y z)
  then obtain k where k: "k < length out" "out ! k = z" by (auto simp: in_set_conv_nth)
  from step have "y \<in> set S" "y \<in> set (getPrerequisites (build ops) z)"
    by (auto simp: induced_def getPrerequisites_build)
  with t[OF k(1)] k(2) have "y \<in> set (take k out)" by simp
  then obtain j where j: "j < k" "out ! j = y" using k(1) by (auto simp: in_set_conv_nth)
  then have "y \<in> set out" using k(1) by (metis less_trans nth_mem)
  from step.IH[OF this] obtain i j' where ij: "i < j'" "j' < length out" "out ! i = a" "out ! j' = y"
    by blast
  with j k d have "j' = j" by (metis less_trans nth_eq_iff_index_eq)
  with ij j k show ?case by (metis less_trans)
qed

text \<open>
  C8. \<open>topologicalSort\<close> always returns a list and never raises. When the REQUIRES
  subgraph induced by the list \<open>S\<close> has a cycle, every ID on a cycle or downstream of one
  is left out, and the output is strictly shorter than the number of distinct IDs of \<open>S\<close>.
\<close>

theorem topologicalSort_cycle_omitted:
  "(\<exists>out. topologicalSort (build ops) S = Inr out)
   \<and> ((\<exists>c. (c, c) \<in> (induced (build ops) S)\<^sup>+) \<longrightarrow>
        (\<exists>out. topologicalSort (build ops) S = Inr out \<and> length out < card (set S)
           \<and> (\<forall>c v. (c, c) \<in> (induced (build ops) S)\<^sup>+ \<and> (c, v) \<in> (induced (build ops) S)\<^sup>*
                 \<longrightarrow> v \<notin> set out)))"
proof -
  from topologicalSort_result[of "build ops" S] obtain out where
    r: "topologicalSort (build ops) S = Inr out" and d: "distinct out" and s: "set out \<subseteq> set S"
    and t: "\<And>i u. i < length out \<Longrightarrow> u \<in> set S \<Longrightarrow>
           u \<in> set (getPrerequisites (build ops) (out ! i)) \<Longrightarrow> u \<in> set (take i out)"
    by blast
  note bio = before_in_output[of out S ops, OF d t]
  have oncycle: "c \<notin> set out" if "(c, c) \<in> (induced (build ops) S)\<^sup>+" for c
  proof
    assume "c \<in> set out"
    from bio[OF _ _ _ that this] obtain i j where "i < j" "j < length out" "out ! i = c" "out ! j = c"
      by blast
    with d show False by (metis less_trans nat_neq_iff nth_eq_iff_index_eq)
  qed
  have down: "v \<notin> set out"
    if c: "(c, c) \<in> (induced (build ops) S)\<^sup>+" and v: "(c, v) \<in> (induced (build ops) S)\<^sup>*" for c v
  proof (cases "c = v")
    case True
    with oncycle[OF c] show ?thesis by simp
  next
    case False
    with v have cv: "(c, v) \<in> (induced (build ops) S)\<^sup>+" by (simp add: rtrancl_eq_or_trancl)
    show ?thesis
    proof
      assume "v \<in> set out"
      from bio[OF _ _ _ cv this] obtain i j where "i < j" "j < length out" "out ! i = c" by blast
      then have "c \<in> set out" by (metis less_trans nth_mem)
      with oncycle[OF c] show False by simp
    qed
  qed
  have short: "length out < card (set S)" if "(c, c) \<in> (induced (build ops) S)\<^sup>+" for c
  proof -
    have "c \<in> set S" using that by (induction rule: trancl_induct) (auto simp: induced_def)
    with oncycle[OF that] s have "set out \<subset> set S" by auto
    then have "card (set out) < card (set S)" by (simp add: psubset_card_mono)
    with d show ?thesis by (simp add: distinct_card)
  qed
  show ?thesis using r short down by blast
qed


text \<open>
  Witness for C1: \<open>B\<close> requires \<open>A\<close>, \<open>C\<close> requires \<open>B\<close>, and \<open>A\<close> requires \<open>X\<close>, which is
  outside the subset: \<open>A\<close> has in-degree 0 and the order is \<open>A, B, C\<close>.
\<close>

theorem topologicalSort_respects_requires_witness:
  "topologicalSort
     (build [AddEdge (mk_edge ''X'' ''A''), AddEdge (mk_edge ''A'' ''B''), AddEdge (mk_edge ''B'' ''C'')])
     [''C'', ''A'', ''B''] = Inr [''A'', ''B'', ''C'']
   \<and> (''A'', ''B'') \<in> requiresRel
       (build [AddEdge (mk_edge ''X'' ''A''), AddEdge (mk_edge ''A'' ''B''), AddEdge (mk_edge ''B'' ''C'')])
   \<and> (0::nat) < 1
   \<and> (\<exists>inDegree graph. build_degrees
       (build [AddEdge (mk_edge ''X'' ''A''), AddEdge (mk_edge ''A'' ''B''), AddEdge (mk_edge ''B'' ''C'')])
       [''C'', ''A'', ''B''] = Inr (inDegree, graph) \<and> Map_get inDegree ''A'' = Some 0)"
proof -
  let ?ops = "[AddEdge (mk_edge ''X'' ''A''), AddEdge (mk_edge ''A'' ''B''), AddEdge (mk_edge ''B'' ''C'')]"
  let ?S = "[''C'', ''A'', ''B'']"
  have ev: "topologicalSort (build ?ops) ?S = Inr [''A'', ''B'', ''C'']" by code_simp
  have e: "(''A'', ''B'') \<in> requiresRel (build ?ops)" by code_simp
  from topologicalSort_respects_requires[of ?ops ?S] obtain out inDegree graph where
    o: "topologicalSort (build ?ops) ?S = Inr out"
    and ord: "\<forall>i j. i < length out \<and> j < length out \<and> (out ! i, out ! j) \<in> requiresRel (build ?ops)
            \<longrightarrow> i < j"
    and bd: "build_degrees (build ?ops) ?S = Inr (inDegree, graph)"
    and dg: "\<forall>v. Map_get inDegree v =
            (if v \<in> set ?S
             then Some (int (count_list ?S v
                    * length (filter (\<lambda>e. edge_type e = REQUIRES \<and> edge_from e \<in> set ?S
                                \<and> edge_to e = v) (added_edges ?ops))))
             else None)"
    by blast
  from o ev have out: "out = [''A'', ''B'', ''C'']" by simp
  from ord[rule_format, of 0 1] e have "(0::nat) < 1" by (simp add: out)
  moreover from dg[rule_format, of "''A''"] have "Map_get inDegree ''A'' = Some 0"
    by (simp add: mk_edge_def)
  ultimately show ?thesis using ev e bd by blast
qed

text \<open>
  Witness for C8: with \<open>A\<close> requires \<open>B\<close> and \<open>B\<close> requires \<open>A\<close>, the sort of \<open>[A, B]\<close> returns a
  list shorter than 2.
\<close>

theorem topologicalSort_cycle_omitted_witness:
  "(''A'', ''A'') \<in> (induced (build [AddEdge (mk_edge ''B'' ''A''), AddEdge (mk_edge ''A'' ''B'')])
        [''A'', ''B''])\<^sup>+
   \<and> (\<exists>out. topologicalSort (build [AddEdge (mk_edge ''B'' ''A''), AddEdge (mk_edge ''A'' ''B'')])
        [''A'', ''B''] = Inr out \<and> length out < 2)"
proof -
  let ?ops = "[AddEdge (mk_edge ''B'' ''A''), AddEdge (mk_edge ''A'' ''B'')]"
  let ?S = "[''A'', ''B'']"
  have ab: "(''A'', ''B'') \<in> requiresRel (build ?ops)" by code_simp
  have ba: "(''B'', ''A'') \<in> requiresRel (build ?ops)" by code_simp
  have "(''A'', ''B'') \<in> induced (build ?ops) ?S" "(''B'', ''A'') \<in> induced (build ?ops) ?S"
    using ab ba by (simp_all add: induced_def)
  then have cyc: "(''A'', ''A'') \<in> (induced (build ?ops) ?S)\<^sup>+" by (rule trancl_into_trancl[OF r_into_trancl])
  then have "\<exists>c. (c, c) \<in> (induced (build ?ops) ?S)\<^sup>+" by blast
  with topologicalSort_cycle_omitted[of ?ops ?S] obtain out where
    "topologicalSort (build ?ops) ?S = Inr out" "length out < card (set ?S)" by blast
  moreover have "card (set ?S) = 2" by simp
  ultimately show ?thesis using cyc by auto
qed

section \<open>DiagnosticsEngine (src/unnamed/part_001)\<close>

text \<open>
  \<open>Partial<ConceptProgress>\<close>, as \<open>updateProgress\<close> reads it: an absent (or null) field is
  \<open>None\<close>. \<open>Date.now()\<close> is the parameter \<open>now\<close>. \<open>importProgress\<close> is taken after
  \<open>JSON.parse\<close>. An engine is what the constructor followed by calls of \<open>updateProgress\<close>
  and \<open>importProgress\<close> makes.
\<close>

record PartialProgress =
  upd_confidence :: "real option"
  upd_last_reviewed :: "real option"
  upd_time_spent_seconds :: "real option"

record DiagnosticsEngine =
  progress :: "(string, (string, ConceptProgress) jsmap) jsmap"

definition DiagnosticsEngine_new :: DiagnosticsEngine where
  "DiagnosticsEngine_new = \<lparr>progress = []\<rparr>"

definition user_map :: "DiagnosticsEngine \<Rightarrow> string \<Rightarrow> (string, ConceptProgress) jsmap" where
  "user_map eng userId = (case Map_get (progress eng) userId of Some up \<Rightarrow> up | None \<Rightarrow> [])"

definition updateProgress ::
  "DiagnosticsEngine \<Rightarrow> real \<Rightarrow> string \<Rightarrow> string \<Rightarrow> PartialProgress \<Rightarrow> DiagnosticsEngine" where
  "updateProgress eng now userId conceptId update =
     (let userProgress = user_map eng userId;
          existing = Map_get userProgress conceptId;
          newProgress = \<lparr>
            user_id = userId,
            concept_id = conceptId,
            confidence = (case upd_confidence update of Some c \<Rightarrow> c
                          | None \<Rightarrow> (case existing of Some e \<Rightarrow> confidence e | None \<Rightarrow> 0)),
            last_reviewed = (case upd_last_reviewed update of Some l \<Rightarrow> l | None \<Rightarrow> now),
            review_count = (case existing of Some e \<Rightarrow> review_count e | None \<Rightarrow> 0) + 1,
            time_spent_seconds = (case existing of Some e \<Rightarrow> time_spent_seconds e | None \<Rightarrow> 0)
                 + (case upd_time_spent_seconds update of Some t \<Rightarrow> t | None \<Rightarrow> 0)\<rparr>
      in eng\<lparr>progress := Map_set (progress eng) userId (Map_set userProgress conceptId newProgress)\<rparr>)"

definition importProgress ::
  "DiagnosticsEngine \<Rightarrow> string \<Rightarrow> ConceptProgress list \<Rightarrow> DiagnosticsEngine" where
  "importProgress eng userId progressArray =
     eng\<lparr>progress := Map_set (progress eng) userId
           (fold (\<lambda>prog up. Map_set up (concept_id prog) prog) progressArray (user_map eng userId))\<rparr>"

definition getProgress :: "DiagnosticsEngine \<Rightarrow> string \<Rightarrow> string \<Rightarrow> ConceptProgress option" where
  "getProgress eng userId conceptId =
     (case Map_get (progress eng) userId of
        None \<Rightarrow> None
      | Some up \<Rightarrow> Map_get up conceptId)"

definition getUserProgress :: "DiagnosticsEngine \<Rightarrow> string \<Rightarrow> ConceptProgress list" where
  "getUserProgress eng userId =
     (case Map_get (progress eng) userId of Some up \<Rightarrow> Map_values up | None \<Rightarrow> [])"

definition getConfidence :: "DiagnosticsEngine \<Rightarrow> string \<Rightarrow> string \<Rightarrow> real" where
  "getConfidence eng userId conceptId =
     (case getProgress eng userId conceptId of Some prog \<Rightarrow> confidence prog | None \<Rightarrow> 0)"

definition Set_of_list :: "'a list \<Rightarrow> 'a list" where
  "Set_of_list xs = fold (\<lambda>x s. Set_add s x) xs []"

definition getKnownConcepts :: "DiagnosticsEngine \<Rightarrow> string \<Rightarrow> real \<Rightarrow> string list" where
  "getKnownConcepts eng userId threshold =
     Set_of_list (map concept_id (filter (\<lambda>p. confidence p \<ge> threshold) (getUserProgress eng userId)))"

record Gaps =
  missing :: "string list"
  weak :: "string list"
  strongPrereqs :: "string list"

definition add_required :: "MathGraph \<Rightarrow> string \<Rightarrow> string list \<Rightarrow> string list" where
  "add_required g conceptId allRequired =
     Set_add (fold (\<lambda>p s. Set_add s p) (getAllPrerequisites g conceptId) allRequired) conceptId"

definition classify :: "DiagnosticsEngine \<Rightarrow> string \<Rightarrow> real \<Rightarrow> string
    \<Rightarrow> string list \<times> string list \<Rightarrow> string list \<times> string list" where
  "classify eng userId confidenceThreshold conceptId mw =
     (let c = getConfidence eng userId conceptId
      in if c = 0 then (fst mw @ [conceptId], snd mw)
         else if c < confidenceThreshold then (fst mw, snd mw @ [conceptId])
         else mw)"

definition detectGaps ::
  "DiagnosticsEngine \<Rightarrow> string \<Rightarrow> MathGraph \<Rightarrow> string list \<Rightarrow> real \<Rightarrow> Gaps" where
  "detectGaps eng userId g targetConcepts confidenceThreshold =
     (let known = getKnownConcepts eng userId confidenceThreshold;
          allRequired = fold (add_required g) targetConcepts [];
          mw = fold (classify eng userId confidenceThreshold) allRequired ([], []);
          strong = filter (\<lambda>i. i \<in> set known \<and> i \<notin> set targetConcepts) allRequired
      in \<lparr>missing = fst mw, weak = snd mw, strongPrereqs = strong\<rparr>)"

datatype EngineOp =
  UpdateProgress real string string PartialProgress
  | ImportProgress string "ConceptProgress list"

fun apply_engine_op :: "DiagnosticsEngine \<Rightarrow> EngineOp \<Rightarrow> DiagnosticsEngine" where
  "apply_engine_op eng (UpdateProgress now u c upd) = updateProgress eng now u c upd"
| "apply_engine_op eng (ImportProgress u ps) = importProgress eng u ps"

definition run_engine :: "EngineOp list \<Rightarrow> DiagnosticsEngine" where
  "run_engine eops = foldl apply_engine_op DiagnosticsEngine_new eops"

definition set_confidence :: "string \<Rightarrow> string \<Rightarrow> real \<Rightarrow> EngineOp" where
  "set_confidence u c x = UpdateProgress 0 u c
     \<lparr>upd_confidence = Some x, upd_last_reviewed = None, upd_time_spent_seconds = None\<rparr>"

subsection \<open>Stored progress\<close>

definition eng_inv :: "DiagnosticsEngine \<Rightarrow> bool" where
  "eng_inv eng \<longleftrightarrow>
     (\<forall>u up. map_of (progress eng) u = Some up \<longrightarrow>
        distinct (map fst up) \<and> (\<forall>p \<in> set up. concept_id (snd p) = fst p))"

definition user_inv :: "(string, ConceptProgress) jsmap \<Rightarrow> bool" where
  "user_inv up \<longleftrightarrow> distinct (map fst up) \<and> (\<forall>p \<in> set up. concept_id (snd p) = fst p)"

lemma user_inv_update:
  "user_inv up \<Longrightarrow> concept_id p = k \<Longrightarrow> user_inv (AList.update k p up)"
  by (auto simp: user_inv_def distinct_update set_update_distinct)

lemma user_inv_fold_import:
  "user_inv up \<Longrightarrow> user_inv (fold (\<lambda>prog up. Map_set up (concept_id prog) prog) ps up)"
  by (induction ps arbitrary: up) (simp_all add: Map_set_def user_inv_update)

lemma eng_inv_user_map: "eng_inv eng \<Longrightarrow> user_inv (user_map eng u)"
proof (cases "map_of (progress eng) u")
  case None
  then show ?thesis by (simp add: user_inv_def user_map_def Map_get_def)
next
  case (Some up)
  assume "eng_inv eng"
  with Some have "distinct (map fst up) \<and> (\<forall>p \<in> set up. concept_id (snd p) = fst p)"
    unfolding eng_inv_def by blast
  then show ?thesis using Some by (simp add: user_inv_def user_map_def Map_get_def)
qed

lemma eng_inv_set_user:
  "eng_inv eng \<Longrightarrow> user_inv up \<Longrightarrow> eng_inv (eng\<lparr>progress := Map_set (progress eng) u up\<rparr>)"
  by (auto simp: eng_inv_def user_inv_def Map_set_def update_conv')

lemma eng_inv_run: "eng_inv (run_engine eops)"
proof (induction eops rule: rev_induct)
  case Nil
  show ?case by (simp add: run_engine_def DiagnosticsEngine_new_def eng_inv_def)
next
  case (snoc x xs)
  show ?case
  proof (cases x)
    case (UpdateProgress now u c upd)
    have "user_inv (Map_set (user_map (run_engine xs) u) c p)" if "concept_id p = c" for p
      using that eng_inv_user_map[OF snoc] by (simp add: Map_set_def user_inv_update)
    then show ?thesis using UpdateProgress snoc
      by (simp add: run_engine_def updateProgress_def Let_def eng_inv_set_user)
  next
    case (ImportProgress u ps)
    then show ?thesis using snoc
      by (simp add: run_engine_def importProgress_def eng_inv_set_user user_inv_fold_import
          eng_inv_user_map)
  qed
qed

lemma set_Set_add [simp]: "set (Set_add s x) = insert x (set s)"
  by (auto simp: Set_add_def)

lemma distinct_Set_add [simp]: "distinct (Set_add s x) = distinct s"
  by (auto simp: Set_add_def)

lemma set_Set_of_list_aux: "set (fold (\<lambda>x s. Set_add s x) xs acc) = set acc \<union> set xs"
  by (induction xs arbitrary: acc) auto

lemma distinct_Set_of_list_aux:
  "distinct acc \<Longrightarrow> distinct (fold (\<lambda>x s. Set_add s x) xs acc)"
  by (induction xs arbitrary: acc) auto

lemma set_Set_of_list [simp]: "set (Set_of_list xs) = set xs"
  by (simp add: Set_of_list_def set_Set_of_list_aux)

lemma known_iff:
  assumes "eng_inv eng"
  shows "c \<in> set (getKnownConcepts eng u thr)
     \<longleftrightarrow> (\<exists>p. getProgress eng u c = Some p \<and> thr \<le> confidence p)"
proof (cases "map_of (progress eng) u")
  case None
  then show ?thesis by (simp add: getKnownConcepts_def getUserProgress_def getProgress_def Map_get_def)
next
  case (Some up)
  with assms have d: "distinct (map fst up)" and k: "\<And>p. p \<in> set up \<Longrightarrow> concept_id (snd p) = fst p"
    by (auto simp: eng_inv_def)
  have "c \<in> set (getKnownConcepts eng u thr)
      \<longleftrightarrow> (\<exists>q \<in> set up. concept_id (snd q) = c \<and> thr \<le> confidence (snd q))"
    using Some by (auto simp: getKnownConcepts_def getUserProgress_def Map_get_def Map_values_def)
  also have "\<dots> \<longleftrightarrow> (\<exists>p. (c, p) \<in> set up \<and> thr \<le> confidence p)"
    using k by (metis prod.collapse fst_conv snd_conv)
  also have "\<dots> \<longleftrightarrow> (\<exists>p. map_of up c = Some p \<and> thr \<le> confidence p)"
    using d by simp
  finally show ?thesis using Some by (simp add: getProgress_def Map_get_def)
qed

lemma known_confidence:
  assumes "eng_inv eng" "0 < thr"
  shows "c \<in> set (getKnownConcepts eng u thr) \<longleftrightarrow> thr \<le> getConfidence eng u c"
  using assms(2) unfolding known_iff[OF assms(1)] getConfidence_def
  by (cases "getProgress eng u c") auto

lemma set_fold_add_required:
  "set (fold (add_required g) ts acc)
     = set acc \<union> set ts \<union> (\<Union>t \<in> set ts. set (getAllPrerequisites g t))"
  by (induction ts arbitrary: acc) (auto simp: add_required_def set_Set_of_list_aux)

lemma distinct_fold_add_required:
  "distinct acc \<Longrightarrow> distinct (fold (add_required g) ts acc)"
proof (induction ts arbitrary: acc)
  case Nil
  then show ?case by simp
next
  case (Cons t ts)
  have "distinct (add_required g t acc)"
    using Cons.prems by (simp add: add_required_def distinct_Set_of_list_aux)
  with Cons.IH show ?case by simp
qed

lemma fold_classify:
  "fold (classify eng u thr) xs mw =
     (fst mw @ filter (\<lambda>c. getConfidence eng u c = 0) xs,
      snd mw @ filter (\<lambda>c. getConfidence eng u c \<noteq> 0 \<and> getConfidence eng u c < thr) xs)"
  by (induction xs arbitrary: mw) (auto simp: classify_def Let_def)

definition required_set :: "MathGraph \<Rightarrow> string list \<Rightarrow> string set" where
  "required_set g targets = {c. \<exists>t \<in> set targets. (c, t) \<in> (requiresRel g)\<^sup>*}"

lemma allRequired_set:
  "set (fold (add_required (build gops)) targets []) = required_set (build gops) targets"
  by (auto simp: set_fold_add_required required_set_def getAllPrerequisites_set prereqRel_build
        rtrancl_eq_or_trancl)

subsection \<open>Gap detection\<close>

lemma detectGaps_lists:
  "detectGaps eng u g targets thr =
     \<lparr>missing = filter (\<lambda>c. getConfidence eng u c = 0) (fold (add_required g) targets []),
      weak = filter (\<lambda>c. getConfidence eng u c \<noteq> 0 \<and> getConfidence eng u c < thr)
               (fold (add_required g) targets []),
      strongPrereqs = filter (\<lambda>i. i \<in> set (getKnownConcepts eng u thr) \<and> i \<notin> set targets)
               (fold (add_required g) targets [])\<rparr>"
  by (simp add: detectGaps_def Let_def fold_classify)

lemma confidence_nonneg:
  assumes "\<forall>p \<in> set (getUserProgress eng u). 0 \<le> confidence p \<and> confidence p \<le> 1"
  shows "0 \<le> getConfidence eng u c"
proof (cases "getProgress eng u c")
  case None
  then show ?thesis by (simp add: getConfidence_def)
next
  case (Some p)
  then obtain up where up: "map_of (progress eng) u = Some up" "map_of up c = Some p"
    by (auto simp: getProgress_def Map_get_def split: option.splits)
  then have "p \<in> set (getUserProgress eng u)"
    by (force simp: getUserProgress_def Map_get_def Map_values_def dest: map_of_SomeD)
  with assms Some show ?thesis by (auto simp: getConfidence_def)
qed

lemma distinct_filter_append3:
  assumes "distinct xs" "\<And>x. \<not> (P x \<and> Q x)" "\<And>x. \<not> (P x \<and> R x)" "\<And>x. \<not> (Q x \<and> R x)"
  shows "distinct (filter P xs @ filter Q xs @ filter R xs)"
  using assms by auto

text \<open>
  C6, amended. For every user whose stored confidences are in \<open>[0, 1]\<close>, every graph,
  target list and threshold \<open>thr > 0\<close>, \<open>detectGaps\<close> splits the prerequisite closure of the
  targets together with the targets into four pairwise disjoint classes that cover it:
  \<open>missing\<close> (confidence 0), \<open>weak\<close> (confidence in \<open>(0, thr)\<close>), \<open>strongPrereqs\<close>
  (confidence at least \<open>thr\<close>, not a target) and the known targets (confidence at least
  \<open>thr\<close>, a target, in none of the lists); no concept is in two of the lists or twice in
  one.
\<close>

theorem detectGaps_partition:
  assumes thr: "0 < thr"
    and range: "\<forall>p \<in> set (getUserProgress (run_engine eops) u). 0 \<le> confidence p \<and> confidence p \<le> 1"
    and r: "r = detectGaps (run_engine eops) u (build gops) targets thr"
  shows "set (missing r) = {c \<in> required_set (build gops) targets. getConfidence (run_engine eops) u c = 0}
    \<and> set (weak r) = {c \<in> required_set (build gops) targets.
          0 < getConfidence (run_engine eops) u c \<and> getConfidence (run_engine eops) u c < thr}
    \<and> set (strongPrereqs r) = {c \<in> required_set (build gops) targets.
          thr \<le> getConfidence (run_engine eops) u c \<and> c \<notin> set targets}
    \<and> distinct (missing r @ weak r @ strongPrereqs r)
    \<and> {c \<in> required_set (build gops) targets.
          thr \<le> getConfidence (run_engine eops) u c \<and> c \<in> set targets}
        \<inter> set (missing r @ weak r @ strongPrereqs r) = {}
    \<and> set (missing r) \<union> set (weak r) \<union> set (strongPrereqs r)
        \<union> {c \<in> required_set (build gops) targets.
          thr \<le> getConfidence (run_engine eops) u c \<and> c \<in> set targets}
        = required_set (build gops) targets"
proof -
  let ?eng = "run_engine eops" and ?g = "build gops"
  let ?all = "fold (add_required ?g) targets []"
  let ?conf = "getConfidence ?eng u"
  have all: "set ?all = required_set ?g targets" by (rule allRequired_set)
  have dall: "distinct ?all" by (rule distinct_fold_add_required) simp
  have nn: "0 \<le> ?conf c" for c by (rule confidence_nonneg[OF range])
  have kn: "c \<in> set (getKnownConcepts ?eng u thr) \<longleftrightarrow> thr \<le> ?conf c" for c
    by (rule known_confidence[OF eng_inv_run thr])
  have m: "missing r = filter (\<lambda>c. ?conf c = 0) ?all"
    and w: "weak r = filter (\<lambda>c. ?conf c \<noteq> 0 \<and> ?conf c < thr) ?all"
    and s: "strongPrereqs r = filter (\<lambda>i. thr \<le> ?conf i \<and> i \<notin> set targets) ?all"
    unfolding r detectGaps_lists by (simp_all add: kn)
  have weq: "(?conf c \<noteq> 0 \<and> ?conf c < thr) \<longleftrightarrow> (0 < ?conf c \<and> ?conf c < thr)" for c
    using nn[of c] by auto
  have c1: "set (missing r) = {c \<in> required_set ?g targets. ?conf c = 0}"
    unfolding m using all by auto
  have c2: "set (weak r) = {c \<in> required_set ?g targets. 0 < ?conf c \<and> ?conf c < thr}"
    unfolding w using all weq by auto
  have c3: "set (strongPrereqs r) = {c \<in> required_set ?g targets. thr \<le> ?conf c \<and> c \<notin> set targets}"
    unfolding s using all by auto
  have c4: "distinct (missing r @ weak r @ strongPrereqs r)"
    unfolding m w s using thr by (intro distinct_filter_append3[OF dall]) auto
  have c5: "{c \<in> required_set ?g targets. thr \<le> ?conf c \<and> c \<in> set targets}
        \<inter> set (missing r @ weak r @ strongPrereqs r) = {}"
    using c1 c2 c3 thr by auto
  have c6: "set (missing r) \<union> set (weak r) \<union> set (strongPrereqs r)
        \<union> {c \<in> required_set ?g targets. thr \<le> ?conf c \<and> c \<in> set targets}
        = required_set ?g targets"
  proof -
    have "?conf c = 0 \<or> (0 < ?conf c \<and> ?conf c < thr) \<or> thr \<le> ?conf c" for c
      using nn[of c] by linarith
    then show ?thesis unfolding c1 c2 c3 by blast
  qed
  from c1 c2 c3 c4 c5 c6 show ?thesis by blast
qed

definition empty_update :: PartialProgress where
  "empty_update = \<lparr>upd_confidence = None, upd_last_reviewed = None, upd_time_spent_seconds = None\<rparr>"

text \<open>
  C6 as stated lets the threshold be any number. With threshold 0 a concept whose stored
  confidence is 0 is in \<open>missing\<close> and in \<open>strongPrereqs\<close>: \<open>updateProgress\<close> with no
  confidence stores 0, and \<open>getKnownConcepts\<close> keeps every record with \<open>confidence \<ge> 0\<close>.
\<close>

theorem detectGaps_overlap_at_zero_threshold:
  "list_all (\<lambda>p. 0 \<le> confidence p \<and> confidence p \<le> 1)
     (getUserProgress (run_engine [UpdateProgress 0 ''u'' ''A'' empty_update]) ''u'')
   \<and> ''A'' \<in> set (missing (detectGaps (run_engine [UpdateProgress 0 ''u'' ''A'' empty_update])
        ''u'' (build [AddEdge (mk_edge ''A'' ''C'')]) [''C''] 0))
   \<and> ''A'' \<in> set (strongPrereqs (detectGaps (run_engine [UpdateProgress 0 ''u'' ''A'' empty_update])
        ''u'' (build [AddEdge (mk_edge ''A'' ''C'')]) [''C''] 0))"
  by code_simp

text \<open>
  Witness for C6: confidences \<open>A = 1\<close>, \<open>B = 0.5\<close>, \<open>C = 0\<close>, threshold 0.7, \<open>B\<close> requires
  \<open>A\<close>, \<open>C\<close> requires \<open>B\<close>, target \<open>C\<close>.
\<close>

theorem detectGaps_partition_witness:
  "(0::real) < 7 / 10
   \<and> list_all (\<lambda>p. 0 \<le> confidence p \<and> confidence p \<le> 1)
       (getUserProgress (run_engine [set_confidence ''u'' ''A'' 1, set_confidence ''u'' ''B'' (1/2),
          set_confidence ''u'' ''C'' 0]) ''u'')
   \<and> detectGaps (run_engine [set_confidence ''u'' ''A'' 1, set_confidence ''u'' ''B'' (1/2),
          set_confidence ''u'' ''C'' 0]) ''u''
        (build [AddEdge (mk_edge ''A'' ''B''), AddEdge (mk_edge ''B'' ''C'')]) [''C''] (7/10)
      = \<lparr>missing = [''C''], weak = [''B''], strongPrereqs = [''A'']\<rparr>
   \<and> set [''C''] \<union> set [''B''] \<union> set [''A'']
        \<union> {c \<in> required_set (build [AddEdge (mk_edge ''A'' ''B''), AddEdge (mk_edge ''B'' ''C'')]) [''C''].
            7 / 10 \<le> getConfidence (run_engine [set_confidence ''u'' ''A'' 1,
               set_confidence ''u'' ''B'' (1/2), set_confidence ''u'' ''C'' 0]) ''u'' c
            \<and> c \<in> set [''C'']}
      = required_set (build [AddEdge (mk_edge ''A'' ''B''), AddEdge (mk_edge ''B'' ''C'')]) [''C'']"
proof -
  let ?eops = "[set_confidence ''u'' ''A'' 1, set_confidence ''u'' ''B'' (1/2), set_confidence ''u'' ''C'' 0]"
  let ?gops = "[AddEdge (mk_edge ''A'' ''B''), AddEdge (mk_edge ''B'' ''C'')]"
  have ev: "detectGaps (run_engine ?eops) ''u'' (build ?gops) [''C''] (7/10)
      = \<lparr>missing = [''C''], weak = [''B''], strongPrereqs = [''A'']\<rparr>"
    by code_simp
  have la: "list_all (\<lambda>p. 0 \<le> confidence p \<and> confidence p \<le> 1) (getUserProgress (run_engine ?eops) ''u'')"
    by code_simp
  then have range: "\<forall>p \<in> set (getUserProgress (run_engine ?eops) ''u''). 0 \<le> confidence p \<and> confidence p \<le> 1"
    by (simp add: list_all_iff)
  have thr: "(0::real) < 7 / 10" by simp
  note th = detectGaps_partition[OF thr range ev[symmetric], unfolded Gaps.select_convs]
  from th have "set [''C''] \<union> set [''B''] \<union> set [''A'']
        \<union> {c \<in> required_set (build ?gops) [''C''].
            7 / 10 \<le> getConfidence (run_engine ?eops) ''u'' c \<and> c \<in> set [''C'']}
      = required_set (build ?gops) [''C'']"
    by blast
  with thr la ev show ?thesis by blast
qed

subsection \<open>Study path\<close>

text \<open>
  \<open>confidenceMap\<close> is a plain object. Its own properties are kept as an association list;
  the order in which JavaScript enumerates them is not observed by the code below.
  Writing a number to the key \<open>__proto__\<close> calls the setter inherited from
  \<open>Object.prototype\<close>, which ignores a value that is not an object: no property is
  created. Reading the key \<open>__proto__\<close> gives the prototype object, reading any other key
  that is not an own property gives what \<open>Object.prototype\<close> has under that name.
\<close>

type_synonym plain_object = "(string \<times> real) list"

datatype property_value = A_number real | An_object | Undefined

definition Object_prototype_keys :: "string list" where
  "Object_prototype_keys =
     [''constructor'', ''__defineGetter__'', ''__defineSetter__'', ''hasOwnProperty'',
      ''__lookupGetter__'', ''__lookupSetter__'', ''isPrototypeOf'', ''propertyIsEnumerable'',
      ''toString'', ''valueOf'', ''__proto__'', ''toLocaleString'']"

definition object_set :: "plain_object \<Rightarrow> string \<Rightarrow> real \<Rightarrow> plain_object" where
  "object_set obj key v = (if key = ''__proto__'' then obj else AList.update key v obj)"

definition object_get :: "plain_object \<Rightarrow> string \<Rightarrow> property_value" where
  "object_get obj key =
     (if key = ''__proto__'' then An_object
      else case map_of obj key of
             Some v \<Rightarrow> A_number v
           | None \<Rightarrow> if key \<in> set Object_prototype_keys then An_object else Undefined)"

text \<open>\<open>v || 0\<close>: \<open>undefined\<close> and the number 0 are falsy, an object is truthy.\<close>

fun or_zero :: "property_value \<Rightarrow> property_value" where
  "or_zero (A_number x) = (if x = 0 then A_number 0 else A_number x)"
| "or_zero An_object = An_object"
| "or_zero Undefined = A_number 0"

text \<open>
  \<open>ToNumber\<close>, applied by \<open>*\<close> to its operands: an object of \<open>Object.prototype\<close> converts
  to a string that is not a numeric literal, hence to \<open>NaN\<close>.
\<close>

fun ToNumber :: "property_value \<Rightarrow> number" where
  "ToNumber (A_number x) = Num x"
| "ToNumber An_object = NaN"
| "ToNumber Undefined = NaN"

record StudyPath =
  path_user_id :: string
  target_exam :: string
  curriculum :: string
  year_level :: real
  time_remaining_days :: real
  ordered_concepts :: "string list"
  confidence_map :: plain_object
  gaps :: "string list"
  estimated_total_hours :: number

text \<open>The literal \<open>0.7\<close>, the default of \<open>confidenceThreshold\<close>, is the double nearest to 7/10.\<close>

definition default_confidenceThreshold :: real where
  "default_confidenceThreshold = val (round_double (7 / 10))"

text \<open>The body of the loop that accumulates \<open>totalHours\<close>.\<close>

definition add_hours :: "MathGraph \<Rightarrow> plain_object \<Rightarrow> string \<Rightarrow> number \<Rightarrow> number" where
  "add_hours g confidenceMap conceptId totalHours =
     (case getNode g conceptId of
        None \<Rightarrow> totalHours
      | Some node \<Rightarrow>
          (let baseTime = Num (1 / 2);
               complexityMultiplier = num_add (Num 1) (num_div (Num (complexity node)) (Num 10));
               confidenceDiscount = or_zero (object_get confidenceMap conceptId)
           in num_add totalHours
                (num_mul (num_mul baseTime complexityMultiplier)
                   (num_sub (Num 1) (num_mul (ToNumber confidenceDiscount) (Num (1 / 2)))))))"

definition generateStudyPath ::
  "DiagnosticsEngine \<Rightarrow> string \<Rightarrow> MathGraph \<Rightarrow> string list \<Rightarrow> real \<Rightarrow> string \<Rightarrow> string \<Rightarrow> real
     \<Rightarrow> error + StudyPath" where
  "generateStudyPath eng userId g targetConcepts timeRemainingDays targetExam curriculumSystem yearLevel =
     (let gaps = detectGaps eng userId g targetConcepts default_confidenceThreshold;
          toStudy = missing gaps @ weak gaps
      in case topologicalSort g toStudy of
           Inl e \<Rightarrow> Inl e
         | Inr ordered \<Rightarrow>
             (let confidenceMap =
                    fold (\<lambda>conceptId obj. object_set obj conceptId (getConfidence eng userId conceptId))
                      ordered [];
                  totalHours = fold (add_hours g confidenceMap) ordered (Num 0)
              in Inr \<lparr>path_user_id = userId,
                      target_exam = targetExam,
                      curriculum = curriculumSystem,
                      year_level = yearLevel,
                      time_remaining_days = timeRemainingDays,
                      ordered_concepts = ordered,
                      confidence_map = confidenceMap,
                      gaps = missing gaps,
                      estimated_total_hours = Math_ceil totalHours\<rparr>))"

text \<open>The amounts that the claim names, in double arithmetic.\<close>

definition nominal_hours :: "MathGraph \<Rightarrow> string \<Rightarrow> number" where
  "nominal_hours g c =
     num_mul (Num (1 / 2)) (num_add (Num 1) (num_div (Num (complexity (the (getNode g c)))) (Num 10)))"

definition discount_factor :: "DiagnosticsEngine \<Rightarrow> string \<Rightarrow> string \<Rightarrow> number" where
  "discount_factor eng u c = num_sub (Num 1) (num_mul (Num (getConfidence eng u c)) (Num (1 / 2)))"

lemma map_of_fold_object_set:
  "map_of (fold (\<lambda>c obj. object_set obj c (f c)) xs m0) k
     = (if k \<in> set xs \<and> k \<noteq> ''__proto__'' then Some (f k) else map_of m0 k)"
  by (induction xs arbitrary: m0) (auto simp: object_set_def update_conv')

lemma confidenceDiscount_fold:
  assumes "c \<in> set xs" "c \<noteq> ''__proto__''"
  shows "ToNumber (or_zero (object_get (fold (\<lambda>c obj. object_set obj c (getConfidence eng u c)) xs []) c))
     = Num (getConfidence eng u c)"
  using assms by (simp add: object_get_def map_of_fold_object_set)

lemma fold_add_hours:
  assumes "\<forall>c \<in> set xs. getNode g c \<noteq> None"
    and "\<forall>c \<in> set xs. ToNumber (or_zero (object_get cm c)) = Num (getConfidence eng u c)"
  shows "fold (add_hours g cm) xs t
     = foldl (\<lambda>total c. num_add total (num_mul (nominal_hours g c) (discount_factor eng u c))) t xs"
  using assms
proof (induction xs arbitrary: t)
  case Nil
  show ?case by simp
next
  case (Cons x xs)
  from Cons.prems obtain node where n: "getNode g x = Some node" by auto
  have step: "add_hours g cm x t = num_add t (num_mul (nominal_hours g x) (discount_factor eng u x))"
    using n Cons.prems(2) by (simp add: add_hours_def Let_def nominal_hours_def discount_factor_def)
  have "fold (add_hours g cm) xs (add_hours g cm x t)
      = foldl (\<lambda>total c. num_add total (num_mul (nominal_hours g c) (discount_factor eng u c)))
          (add_hours g cm x t) xs"
    using Cons.prems by (intro Cons.IH) simp_all
  then show ?case by (simp add: step)
qed

lemma toStudy_confidence:
  "c \<in> set (missing (detectGaps eng u g targets thr) @ weak (detectGaps eng u g targets thr))
   \<Longrightarrow> getConfidence eng u c = 0 \<or> getConfidence eng u c < thr"
  by (auto simp: detectGaps_lists)

lemma default_confidenceThreshold_value:
  "default_confidenceThreshold = 3152519739159347 / 4503599627370496"
  unfolding default_confidenceThreshold_def by code_simp

lemma sub_from_one:
  assumes "num_le t (Num (1 / 2))"
  shows "num_le (Num (1 / 2)) (num_sub (Num 1) t)"
proof (cases t)
  case NaN
  with assms show ?thesis by (simp add: num_le_def)
next
  case PosInf
  with assms show ?thesis by (simp add: num_le_def)
next
  case NegInf
  then show ?thesis by (simp add: num_le_def num_sub_def num_add_def)
next
  case NegZero
  then show ?thesis by (simp add: num_le_def num_sub_def num_add_def round_double_one)
next
  case (Num y)
  with assms have y: "y \<le> 1 / 2" by (simp add: num_le_def)
  have "num_sub (Num 1) t = round_double (1 - y)"
    using Num by (simp add: num_sub_def num_add_def)
  moreover have "num_le (round_double (1 / 2)) (round_double (1 - y))"
    by (rule round_double_mono) (use y in simp)
  ultimately show ?thesis by (simp add: round_double_half)
qed

lemma factor_at_least_half:
  assumes "x = 0 \<or> x < default_confidenceThreshold"
  shows "num_le (Num (1 / 2)) (num_sub (Num 1) (num_mul (Num x) (Num (1 / 2))))"
proof (rule sub_from_one)
  show "num_le (num_mul (Num x) (Num (1 / 2))) (Num (1 / 2))"
  proof (cases "x = 0")
    case True
    then show ?thesis by (simp add: num_mul_def num_le_def)
  next
    case False
    with assms have "x * (1 / 2) \<le> 1 / 2"
      by (simp add: default_confidenceThreshold_value)
    from round_double_mono[OF this] False show ?thesis
      by (simp add: num_mul_def round_double_half)
  qed
qed

lemma half_of_nominal:
  assumes f: "num_le (Num (1 / 2)) f" and n: "num_lt (Num 0) n"
  shows "num_le (num_mul (Num (1 / 2)) n) (num_mul n f)"
proof -
  from n consider "n = PosInf" | x where "n = Num x" "0 < x"
    by (cases n) (auto simp: num_lt_def)
  then show ?thesis
  proof cases
    case 1
    with f show ?thesis by (cases f) (auto simp: num_le_def num_mul_def)
  next
    case 2
    from f consider "f = PosInf" | y where "f = Num y" "1 / 2 \<le> y"
      by (cases f) (auto simp: num_le_def)
    then show ?thesis
    proof cases
      case 1
      with 2 show ?thesis by (simp add: num_le_def num_mul_def)
    next
      case 2
      note fy = this
      have "1 / 2 * x \<le> x * y" using \<open>0 < x\<close> fy(2) by (simp add: field_simps)
      from round_double_mono[OF this] \<open>n = Num x\<close> \<open>0 < x\<close> fy show ?thesis
        by (simp add: num_mul_def)
    qed
  qed
qed

text \<open>
  C7, amended. For every user, graph and target list, \<open>generateStudyPath\<close> returns a
  path. When every concept of its ordered sequence has a node and none has the ID
  \<open>__proto__\<close>, \<open>estimated_total_hours\<close> is \<open>Math.ceil\<close> of the sum of the terms
  \<open>0.5 \<times> (1 + complexity / 10) \<times> (1 - confidence \<times> 0.5)\<close>, with the stored confidence (0 when
  none), where every operation is a double operation and the sum is accumulated from 0
  in the order of the sequence. For each ordered concept the factor
  \<open>1 - confidence \<times> 0.5\<close> is at least 0.5, and the term is at least half of the
  undiscounted \<open>0.5 \<times> (1 + complexity / 10)\<close> whenever that amount is positive.
\<close>

theorem generateStudyPath_hours:
  "\<exists>sp. generateStudyPath eng u g targets days exam cur yl = Inr sp
     \<and> ((\<forall>c \<in> set (ordered_concepts sp). getNode g c \<noteq> None \<and> c \<noteq> ''__proto__'') \<longrightarrow>
          estimated_total_hours sp =
            Math_ceil (foldl (\<lambda>total c. num_add total
                                (num_mul (nominal_hours g c) (discount_factor eng u c)))
                         (Num 0) (ordered_concepts sp)))
     \<and> (\<forall>c \<in> set (ordered_concepts sp).
          num_le (Num (1 / 2)) (discount_factor eng u c)
          \<and> (num_lt (Num 0) (nominal_hours g c) \<longrightarrow>
               num_le (num_mul (Num (1 / 2)) (nominal_hours g c))
                      (num_mul (nominal_hours g c) (discount_factor eng u c))))"
proof -
  let ?gaps = "detectGaps eng u g targets default_confidenceThreshold"
  let ?toStudy = "missing ?gaps @ weak ?gaps"
  from topologicalSort_result[of g ?toStudy] obtain ordered where
    ts: "topologicalSort g ?toStudy = Inr ordered" and sub: "set ordered \<subseteq> set ?toStudy"
    by blast
  let ?cm = "fold (\<lambda>c obj. object_set obj c (getConfidence eng u c)) ordered []"
  let ?sum = "foldl (\<lambda>total c. num_add total
                 (num_mul (nominal_hours g c) (discount_factor eng u c))) (Num 0) ordered"
  let ?sp = "\<lparr>path_user_id = u, target_exam = exam, curriculum = cur, year_level = yl,
      time_remaining_days = days, ordered_concepts = ordered, confidence_map = ?cm,
      gaps = missing ?gaps,
      estimated_total_hours = Math_ceil (fold (add_hours g ?cm) ordered (Num 0))\<rparr>"
  have gen: "generateStudyPath eng u g targets days exam cur yl = Inr ?sp"
    using ts by (simp add: generateStudyPath_def Let_def)
  have total: "fold (add_hours g ?cm) ordered (Num 0) = ?sum"
    if "\<forall>c \<in> set ordered. getNode g c \<noteq> None \<and> c \<noteq> ''__proto__''"
  proof (rule fold_add_hours)
    show "\<forall>c \<in> set ordered. getNode g c \<noteq> None" using that by blast
    show "\<forall>c \<in> set ordered. ToNumber (or_zero (object_get ?cm c)) = Num (getConfidence eng u c)"
      using that confidenceDiscount_fold by blast
  qed
  have half: "num_le (Num (1 / 2)) (discount_factor eng u c)" if "c \<in> set ordered" for c
  proof -
    from that sub have "c \<in> set ?toStudy" by blast
    from factor_at_least_half[OF toStudy_confidence[OF this]] show ?thesis
      by (simp add: discount_factor_def)
  qed
  have A: "(\<forall>c \<in> set (ordered_concepts ?sp). getNode g c \<noteq> None \<and> c \<noteq> ''__proto__'') \<longrightarrow>
          estimated_total_hours ?sp =
            Math_ceil (foldl (\<lambda>total c. num_add total
                                (num_mul (nominal_hours g c) (discount_factor eng u c)))
                         (Num 0) (ordered_concepts ?sp))"
    unfolding StudyPath.select_convs using total by presburger
  have B: "\<forall>c \<in> set (ordered_concepts ?sp).
          num_le (Num (1 / 2)) (discount_factor eng u c)
          \<and> (num_lt (Num 0) (nominal_hours g c) \<longrightarrow>
               num_le (num_mul (Num (1 / 2)) (nominal_hours g c))
                      (num_mul (nominal_hours g c) (discount_factor eng u c)))"
    unfolding StudyPath.select_convs using half half_of_nominal by blast
  from gen A B show ?thesis by blast
qed

text \<open>
  Complexities \<open>B = 4\<close>, \<open>C = 6\<close> and confidences \<open>B = 0.5\<close>, \<open>C = 0\<close>: the two terms are the
  doubles 0.5249999999999999 and 0.8, and their sum 1.325 is rounded up to 2.
\<close>

theorem generateStudyPath_hours_witness:
  "generateStudyPath (run_engine [set_confidence ''u'' ''B'' (1/2)]) ''u''
     (build [AddNode (mk_node ''B'' 4), AddNode (mk_node ''C'' 6), AddEdge (mk_edge ''B'' ''C'')])
     [''C''] 30 ''exam'' ''VCE'' 12
   = Inr \<lparr>path_user_id = ''u'', target_exam = ''exam'', curriculum = ''VCE'',
        year_level = 12, time_remaining_days = 30, ordered_concepts = [''B'', ''C''],
        confidence_map = [(''B'', 1 / 2), (''C'', 0)], gaps = [''C''],
        estimated_total_hours = Num 2\<rparr>
   \<and> list_all (\<lambda>c. getNode (build [AddNode (mk_node ''B'' 4), AddNode (mk_node ''C'' 6),
          AddEdge (mk_edge ''B'' ''C'')]) c \<noteq> None \<and> c \<noteq> ''__proto__'') [''B'', ''C'']
   \<and> Num 2 = Math_ceil (foldl (\<lambda>total c. num_add total
          (num_mul (nominal_hours (build [AddNode (mk_node ''B'' 4), AddNode (mk_node ''C'' 6),
             AddEdge (mk_edge ''B'' ''C'')]) c)
            (discount_factor (run_engine [set_confidence ''u'' ''B'' (1/2)]) ''u'' c)))
          (Num 0) [''B'', ''C''])
   \<and> list_all (\<lambda>c. num_lt (Num 0) (nominal_hours (build [AddNode (mk_node ''B'' 4),
               AddNode (mk_node ''C'' 6), AddEdge (mk_edge ''B'' ''C'')]) c)
          \<and> num_le (num_mul (Num (1 / 2)) (nominal_hours (build [AddNode (mk_node ''B'' 4),
               AddNode (mk_node ''C'' 6), AddEdge (mk_edge ''B'' ''C'')]) c))
             (num_mul (nominal_hours (build [AddNode (mk_node ''B'' 4),
               AddNode (mk_node ''C'' 6), AddEdge (mk_edge ''B'' ''C'')]) c)
               (discount_factor (run_engine [set_confidence ''u'' ''B'' (1/2)]) ''u'' c)))
        [''B'', ''C'']"
proof -
  let ?eng = "run_engine [set_confidence ''u'' ''B'' (1/2)]"
  let ?g = "build [AddNode (mk_node ''B'' 4), AddNode (mk_node ''C'' 6), AddEdge (mk_edge ''B'' ''C'')]"
  let ?sp = "\<lparr>path_user_id = ''u'', target_exam = ''exam'', curriculum = ''VCE'',
        year_level = 12, time_remaining_days = 30, ordered_concepts = [''B'', ''C''],
        confidence_map = [(''B'', 1 / 2), (''C'', 0)], gaps = [''C''],
        estimated_total_hours = Num 2\<rparr>"
  let ?hours = "\<lambda>c. num_mul (nominal_hours ?g c) (discount_factor ?eng ''u'' c)"
  let ?P = "\<lambda>c. getNode ?g c \<noteq> None \<and> c \<noteq> ''__proto__''"
  let ?Q = "\<lambda>c. num_lt (Num 0) (nominal_hours ?g c)"
  let ?R = "\<lambda>c. num_le (num_mul (Num (1 / 2)) (nominal_hours ?g c)) (?hours c)"
  have ev: "generateStudyPath ?eng ''u'' ?g [''C''] 30 ''exam'' ''VCE'' 12 = Inr ?sp"
    by code_simp
  have nodes: "list_all ?P [''B'', ''C'']"
    by (simp only: list.pred_inject, code_simp)
  have pos: "list_all ?Q [''B'', ''C'']"
    by (simp only: list.pred_inject, code_simp)
  from generateStudyPath_hours[of ?eng "''u''" ?g "[''C'']" 30 "''exam''" "''VCE''" 12] obtain sp where
    sp: "generateStudyPath ?eng ''u'' ?g [''C''] 30 ''exam'' ''VCE'' 12 = Inr sp"
    and h: "(\<forall>c \<in> set (ordered_concepts sp). ?P c) \<longrightarrow>
          estimated_total_hours sp = Math_ceil (foldl (\<lambda>total c. num_add total (?hours c))
                         (Num 0) (ordered_concepts sp))"
    and f: "\<forall>c \<in> set (ordered_concepts sp).
          num_le (Num (1 / 2)) (discount_factor ?eng ''u'' c) \<and> (?Q c \<longrightarrow> ?R c)"
    by blast
  from sp ev have eq: "sp = ?sp" by (simp only: sum.inject)
  have oc: "ordered_concepts sp = [''B'', ''C'']" and eh: "estimated_total_hours sp = Num 2"
    unfolding eq by (simp_all only: StudyPath.select_convs)
  have all: "\<forall>c \<in> set [''B'', ''C'']. ?P c"
    using nodes unfolding list_all_iff .
  from h[unfolded oc eh] all
  have total: "Num 2 = Math_ceil (foldl (\<lambda>total c. num_add total (?hours c)) (Num 0) [''B'', ''C''])"
    by (rule mp)
  have floor: "list_all (\<lambda>c. ?Q c \<and> ?R c) [''B'', ''C'']"
    unfolding list_all_iff
  proof
    fix c assume c: "c \<in> set [''B'', ''C'']"
    from pos have "\<forall>c \<in> set [''B'', ''C'']. ?Q c" unfolding list_all_iff .
    from this c have q: "?Q c" by (rule bspec)
    from f[unfolded oc] c have "num_le (Num (1 / 2)) (discount_factor ?eng ''u'' c) \<and> (?Q c \<longrightarrow> ?R c)"
      by (rule bspec)
    then have "?Q c \<longrightarrow> ?R c" by (rule conjunct2)
    from this q have "?R c" by (rule mp)
    with q show "?Q c \<and> ?R c" by (rule conjI)
  qed
  from ev nodes total floor show ?thesis by (intro conjI)
qed

text \<open>
  C7 as stated, with the sum and its ceiling taken exactly, fails. Four concepts of
  complexity 0, 7, 6, 7 and no progress: the exact terms are 0.5, 0.85, 0.8, 0.85 and add
  up to 3, but the partial sums in doubles are 0.5, 1.35, 2.1500000000000004 and
  3.0000000000000004, and \<open>Math.ceil\<close> gives 4.
\<close>

theorem generateStudyPath_hours_not_exact:
  "generateStudyPath (run_engine []) ''u''
     (build [AddNode (mk_node ''A'' 0), AddNode (mk_node ''B'' 7), AddNode (mk_node ''C'' 6),
       AddNode (mk_node ''D'' 7)]) [''A'', ''B'', ''C'', ''D''] 30 ''exam'' ''VCE'' 12
   = Inr \<lparr>path_user_id = ''u'', target_exam = ''exam'', curriculum = ''VCE'',
        year_level = 12, time_remaining_days = 30,
        ordered_concepts = [''A'', ''B'', ''C'', ''D''],
        confidence_map = [(''A'', 0), (''B'', 0), (''C'', 0), (''D'', 0)],
        gaps = [''A'', ''B'', ''C'', ''D''], estimated_total_hours = Num 4\<rparr>
   \<and> list_all (\<lambda>c. getNode (build [AddNode (mk_node ''A'' 0), AddNode (mk_node ''B'' 7),
          AddNode (mk_node ''C'' 6), AddNode (mk_node ''D'' 7)]) c \<noteq> None)
        [''A'', ''B'', ''C'', ''D'']
   \<and> \<lceil>\<Sum>c\<leftarrow>[''A'', ''B'', ''C'', ''D''].
         1 / 2 * (1 + complexity (the (getNode (build [AddNode (mk_node ''A'' 0),
            AddNode (mk_node ''B'' 7), AddNode (mk_node ''C'' 6), AddNode (mk_node ''D'' 7)]) c)) / 10)
         * (1 - getConfidence (run_engine []) ''u'' c * (1 / 2))\<rceil> = (3::int)"
proof (intro conjI)
  let ?g = "build [AddNode (mk_node ''A'' 0), AddNode (mk_node ''B'' 7), AddNode (mk_node ''C'' 6),
       AddNode (mk_node ''D'' 7)]"
  show "generateStudyPath (run_engine []) ''u'' ?g [''A'', ''B'', ''C'', ''D''] 30 ''exam'' ''VCE'' 12
   = Inr \<lparr>path_user_id = ''u'', target_exam = ''exam'', curriculum = ''VCE'',
        year_level = 12, time_remaining_days = 30,
        ordered_concepts = [''A'', ''B'', ''C'', ''D''],
        confidence_map = [(''A'', 0), (''B'', 0), (''C'', 0), (''D'', 0)],
        gaps = [''A'', ''B'', ''C'', ''D''], estimated_total_hours = Num 4\<rparr>"
    by code_simp
  show "list_all (\<lambda>c. getNode ?g c \<noteq> None) [''A'', ''B'', ''C'', ''D'']"
    by (simp only: list.pred_inject, code_simp)
  show "\<lceil>\<Sum>c\<leftarrow>[''A'', ''B'', ''C'', ''D''].
         1 / 2 * (1 + complexity (the (getNode ?g c)) / 10)
         * (1 - getConfidence (run_engine []) ''u'' c * (1 / 2))\<rceil> = (3::int)"
    by (simp only: list.map sum_list.Cons sum_list.Nil, code_simp)
qed

text \<open>
  A concept with the ID \<open>__proto__\<close> gets no entry in \<open>confidenceMap\<close>; its discount is read
  as the prototype object, and the total is \<open>NaN\<close>.
\<close>

lemma generateStudyPath_proto_key:
  "generateStudyPath (run_engine []) ''u'' (build [AddNode (mk_node ''__proto__'' 0)])
     [''__proto__''] 30 ''exam'' ''VCE'' 12
   = Inr \<lparr>path_user_id = ''u'', target_exam = ''exam'', curriculum = ''VCE'',
        year_level = 12, time_remaining_days = 30, ordered_concepts = [''__proto__''],
        confidence_map = [], gaps = [''__proto__''], estimated_total_hours = NaN\<rparr>"
  by code_simp

text \<open>
  A complexity below \<open>-10\<close> makes the undiscounted amount negative, and the discounted term
  is then below half of it: complexity \<open>-20\<close> and confidence 0.5 give \<open>-0.375\<close> against
  \<open>-0.25\<close>.
\<close>

lemma generateStudyPath_negative_nominal:
  "generateStudyPath (run_engine [set_confidence ''u'' ''A'' (1/2)]) ''u''
     (build [AddNode (mk_node ''A'' (- 20))]) [''A''] 30 ''exam'' ''VCE'' 12
   = Inr \<lparr>path_user_id = ''u'', target_exam = ''exam'', curriculum = ''VCE'',
        year_level = 12, time_remaining_days = 30, ordered_concepts = [''A''],
        confidence_map = [(''A'', 1 / 2)], gaps = [], estimated_total_hours = NegZero\<rparr>
   \<and> nominal_hours (build [AddNode (mk_node ''A'' (- 20))]) ''A'' = Num (- (1 / 2))
   \<and> num_mul (nominal_hours (build [AddNode (mk_node ''A'' (- 20))]) ''A'')
        (discount_factor (run_engine [set_confidence ''u'' ''A'' (1/2)]) ''u'' ''A'') = Num (- (3 / 8))
   \<and> num_mul (Num (1 / 2)) (nominal_hours (build [AddNode (mk_node ''A'' (- 20))]) ''A'')
        = Num (- (1 / 4))
   \<and> \<not> num_le (Num (- (1 / 4))) (Num (- (3 / 8)))"
  by (intro conjI; code_simp)

section \<open>StudyPlanner (src/README.md, second part)\<close>

text \<open>
  Of the planner's four collaborators the functions below use the graph and the
  diagnostics engine. \<open>Array.prototype.sort\<close> is stable (ECMAScript 2019) and the
  comparator of \<open>optimizeStudyOrder\<close> is a consistent ordering, so every conforming sort
  returns what a stable insertion sort returns.
\<close>

record StudyPlanner =
  planner_graph :: MathGraph
  planner_diagnostics :: DiagnosticsEngine






















subsection \<open>Critical path\<close>

text \<open>
  The wave loop of \<open>identifyCriticalPath\<close> keeps no visited set and may run forever: it is
  a partial function, \<open>None\<close> standing for a call that does not return.
\<close>

record CriticalPath =
  criticalConcepts :: "string list"
  path_depth :: nat
  totalPrerequisites :: nat

definition next_wave :: "MathGraph \<Rightarrow> string list \<Rightarrow> string list" where
  "next_wave g current =
     fold (\<lambda>c next. fold (\<lambda>pr s. Set_add s pr) (getPrerequisites g c) next) current []"

partial_function (option) wave_loop :: "MathGraph \<Rightarrow> string list \<Rightarrow> nat \<Rightarrow> nat option" where
  "wave_loop g current depth =
     (if current = [] then Some depth
      else wave_loop g (next_wave g current)
             (if next_wave g current \<noteq> [] then depth + 1 else depth))"

declare wave_loop.simps [code]

definition target_step ::
  "MathGraph \<Rightarrow> string \<Rightarrow> string list \<times> nat \<Rightarrow> (string list \<times> nat) option" where
  "target_step g conceptId st =
     (let allPrereqs = fold (\<lambda>p s. Set_add s p) (getAllPrerequisites g conceptId) (fst st)
      in case wave_loop g [conceptId] 0 of
           None \<Rightarrow> None
         | Some depth \<Rightarrow> Some (allPrereqs, max (snd st) depth))"

fun fold_option :: "('a \<Rightarrow> 's \<Rightarrow> 's option) \<Rightarrow> 'a list \<Rightarrow> 's \<Rightarrow> 's option" where
  "fold_option f [] s = Some s"
| "fold_option f (x # xs) s = (case f x s of None \<Rightarrow> None | Some s' \<Rightarrow> fold_option f xs s')"

definition identifyCriticalPath :: "StudyPlanner \<Rightarrow> string list \<Rightarrow> (error + CriticalPath) option" where
  "identifyCriticalPath planner targetConcepts =
     (case fold_option (target_step (planner_graph planner)) targetConcepts ([], 0) of
        None \<Rightarrow> None
      | Some st \<Rightarrow>
          Some (case topologicalSort (planner_graph planner) (targetConcepts @ fst st) of
                  Inl e \<Rightarrow> Inl e
                | Inr critical \<Rightarrow>
                    Inr \<lparr>criticalConcepts = critical, path_depth = snd st,
                         totalPrerequisites = length (fst st)\<rparr>))"

definition cycle_behind :: "(string \<times> string) set \<Rightarrow> string \<Rightarrow> bool" where
  "cycle_behind R c \<longleftrightarrow> (\<exists>z. (z, c) \<in> R\<^sup>* \<and> (z, z) \<in> R\<^sup>+)"

lemma set_next_wave_aux:
  "set (fold (\<lambda>c nxt. fold (\<lambda>pr s. Set_add s pr) (getPrerequisites g c) nxt) current acc)
     = set acc \<union> {u. \<exists>c \<in> set current. (u, c) \<in> prereqRel g}"
  by (induction current arbitrary: acc) (auto simp: set_Set_of_list_aux prereqRel_def)

lemma set_next_wave: "set (next_wave g current) = {u. \<exists>c \<in> set current. (u, c) \<in> prereqRel g}"
  by (simp add: next_wave_def set_next_wave_aux)

lemma cycle_behind_pred:
  assumes "cycle_behind R c"
  shows "\<exists>u. (u, c) \<in> R \<and> cycle_behind R u"
proof -
  from assms obtain z where z: "(z, c) \<in> R\<^sup>*" "(z, z) \<in> R\<^sup>+" unfolding cycle_behind_def by blast
  then have "(z, c) \<in> R\<^sup>+" by (rule trancl_rtrancl_trancl[rotated])
  then obtain u where u: "(z, u) \<in> R\<^sup>*" "(u, c) \<in> R" by (meson tranclD2)
  with z(2) show ?thesis unfolding cycle_behind_def by blast
qed

lemma wave_loop_no_cycle_aux:
  assumes "wave_loop g current depth = Some d"
  shows "\<forall>c \<in> set current. \<not> cycle_behind (prereqRel g) c"
proof (rule wave_loop.raw_induct[OF _ assms])
  fix f g current depth d
  assume IH: "\<And>g current depth d. f g current depth = Some d
            \<Longrightarrow> \<forall>c \<in> set current. \<not> cycle_behind (prereqRel g) c"
    and eq: "(if current = [] then Some depth
              else f g (next_wave g current)
                     (if next_wave g current \<noteq> [] then depth + 1 else depth)) = Some d"
  show "\<forall>c \<in> set current. \<not> cycle_behind (prereqRel g) c"
  proof (intro ballI notI)
    fix c assume cin: "c \<in> set current" and cb: "cycle_behind (prereqRel g) c"
    from cin have ne: "current \<noteq> []" by auto
    from cycle_behind_pred[OF cb] obtain u where u: "(u, c) \<in> prereqRel g" "cycle_behind (prereqRel g) u"
      by blast
    with cin have "u \<in> set (next_wave g current)" by (auto simp: set_next_wave)
    moreover from eq ne have "f g (next_wave g current)
        (if next_wave g current \<noteq> [] then depth + 1 else depth) = Some d" by simp
    ultimately show False using IH u(2) by blast
  qed
qed

lemma wave_loop_no_cycle:
  "wave_loop g current depth = Some d \<Longrightarrow> c \<in> set current \<Longrightarrow> \<not> cycle_behind (prereqRel g) c"
  using wave_loop_no_cycle_aux by blast

lemma wave_loop_terminates:
  "(\<And>c u. c \<in> set current \<Longrightarrow> (u, c) \<notin> prereqRel g ^^ n)
   \<Longrightarrow> \<exists>d. wave_loop g current depth = Some d"
proof (induction n arbitrary: current depth)
  case 0
  have "current = []"
  proof (cases current)
    case (Cons c cs)
    with 0[of c c] show ?thesis by simp
  qed simp
  then show ?case by (subst wave_loop.simps) simp
next
  case (Suc n)
  show ?case
  proof (cases "current = []")
    case True
    then show ?thesis by (subst wave_loop.simps) simp
  next
    case False
    have "(w, u) \<notin> prereqRel g ^^ n" if "u \<in> set (next_wave g current)" for u w
    proof
      assume w: "(w, u) \<in> prereqRel g ^^ n"
      from that obtain c where c: "c \<in> set current" "(u, c) \<in> prereqRel g"
        by (auto simp: set_next_wave)
      from w c(2) have "(w, c) \<in> prereqRel g ^^ Suc n" by auto
      with Suc.prems[OF c(1)] show False by blast
    qed
    from Suc.IH[OF this] obtain d where
      "wave_loop g (next_wave g current) (if next_wave g current \<noteq> [] then depth + 1 else depth)
         = Some d" by blast
    with False show ?thesis by (subst wave_loop.simps) simp
  qed
qed

lemma relpow_empty_mono:
  fixes R :: "('a \<times> 'a) set"
  assumes "\<And>w. (w, u) \<notin> R ^^ n" "n \<le> m"
  shows "(w, u) \<notin> R ^^ m"
proof
  assume "(w, u) \<in> R ^^ m"
  moreover from assms(2) obtain k where "m = k + n" by (metis le_add_diff_inverse2)
  ultimately have "(w, u) \<in> R ^^ k O R ^^ n" by (simp add: relpow_add)
  then obtain x where "(x, u) \<in> R ^^ n" by blast
  with assms(1) show False by blast
qed

lemma common_bound:
  fixes R :: "('a \<times> 'a) set"
  assumes "\<And>u. u \<in> set xs \<Longrightarrow> \<exists>n. \<forall>w. (w, u) \<notin> R ^^ n"
  shows "\<exists>N. \<forall>u \<in> set xs. \<forall>w. (w, u) \<notin> R ^^ N"
  using assms
proof (induction xs)
  case Nil
  show ?case by simp
next
  case (Cons x xs)
  from Cons.IH Cons.prems obtain N where N: "\<forall>u \<in> set xs. \<forall>w. (w, u) \<notin> R ^^ N" by auto
  from Cons.prems[of x] obtain n where n: "\<forall>w. (w, x) \<notin> R ^^ n" by auto
  have "(w, u) \<notin> R ^^ (max n N)" if "u \<in> set (x # xs)" for u w
  proof (cases "u = x")
    case True
    with n show ?thesis
      using relpow_empty_mono[where R = R and n = n and u = x and m = "max n N" and w = w] by simp
  next
    case False
    with that N show ?thesis
      using relpow_empty_mono[where R = R and n = N and u = u and m = "max n N" and w = w] by simp
  qed
  then have "\<forall>u \<in> set (x # xs). \<forall>w. (w, u) \<notin> R ^^ (max n N)" by blast
  then show ?case by blast
qed

lemma no_cycle_bounded:
  assumes fin: "finite (prereqRel g)" and nc: "\<not> cycle_behind (prereqRel g) t"
  shows "\<exists>n. \<forall>w. (w, t) \<notin> prereqRel g ^^ n"
proof -
  let ?R = "prereqRel g"
  let ?RV = "?R \<inter> (UNIV \<times> {v. (v, t) \<in> ?R\<^sup>*})"
  have sub: "?RV \<subseteq> ?R" by auto
  have "acyclic ?RV"
  proof (rule acyclicI, rule allI, rule notI)
    fix x assume "(x, x) \<in> ?RV\<^sup>+"
    then have c: "(x, x) \<in> ?R\<^sup>+" using trancl_mono[OF _ sub] by blast
    from \<open>(x, x) \<in> ?RV\<^sup>+\<close> obtain y where "(y, x) \<in> ?RV" by (meson tranclD2)
    then have "(x, t) \<in> ?R\<^sup>*" by simp
    with c nc show False unfolding cycle_behind_def by blast
  qed
  moreover have "finite ?RV" using fin by simp
  ultimately have wf: "wf ?RV" by (intro finite_acyclic_wf)
  have "(v, t) \<in> ?R\<^sup>* \<longrightarrow> (\<exists>n. \<forall>w. (w, v) \<notin> ?R ^^ n)" for v
  proof (induction v rule: wf_induct_rule[OF wf])
    case (1 v)
    show ?case
    proof
      assume vt: "(v, t) \<in> ?R\<^sup>*"
      have "\<exists>n. \<forall>w. (w, u) \<notin> ?R ^^ n" if "u \<in> set (getPrerequisites g v)" for u
      proof -
        from that have uv: "(u, v) \<in> ?R" by (simp add: prereqRel_def)
        with vt have "(u, v) \<in> ?RV" "(u, t) \<in> ?R\<^sup>*" by auto
        with 1 show ?thesis by blast
      qed
      from common_bound[of "getPrerequisites g v" ?R, OF this] obtain N where
        N: "\<forall>u \<in> set (getPrerequisites g v). \<forall>w. (w, u) \<notin> ?R ^^ N" by blast
      have "(w, v) \<notin> ?R ^^ Suc N" for w
      proof
        assume "(w, v) \<in> ?R ^^ Suc N"
        then obtain u where "(w, u) \<in> ?R ^^ N" "(u, v) \<in> ?R" by auto
        with N show False by (auto simp: prereqRel_def)
      qed
      then show "\<exists>n. \<forall>w. (w, v) \<notin> ?R ^^ n" by blast
    qed
  qed
  then show ?thesis by blast
qed

lemma wave_loop_iff:
  assumes "finite (prereqRel g)"
  shows "wave_loop g [t] 0 = None \<longleftrightarrow> cycle_behind (prereqRel g) t"
proof
  assume "wave_loop g [t] 0 = None"
  show "cycle_behind (prereqRel g) t"
  proof (rule ccontr)
    assume "\<not> cycle_behind (prereqRel g) t"
    from no_cycle_bounded[OF assms this] obtain n where "\<forall>w. (w, t) \<notin> prereqRel g ^^ n" by blast
    then have "\<exists>d. wave_loop g [t] 0 = Some d" using wave_loop_terminates[where n = n and current = "[t]" and g = g and depth = 0] by simp
    with \<open>wave_loop g [t] 0 = None\<close> show False by simp
  qed
next
  assume c: "cycle_behind (prereqRel g) t"
  show "wave_loop g [t] 0 = None"
  proof (cases "wave_loop g [t] 0")
    case (Some d)
    from wave_loop_no_cycle[OF this, of t] c show ?thesis by simp
  qed simp
qed

lemma fold_option_None:
  "fold_option (target_step g) ts st = None \<longleftrightarrow> (\<exists>t \<in> set ts. wave_loop g [t] 0 = None)"
  by (induction ts arbitrary: st) (auto simp: target_step_def Let_def split: option.splits)

lemma finite_requiresRel: "finite (requiresRel g)"
  by (simp add: requiresRel_def)

text \<open>
  C10. \<open>identifyCriticalPath\<close> does not return (the value \<open>None\<close>) exactly when a REQUIRES
  cycle is reachable backward from some target; otherwise it returns a result, without an
  error. \<open>getAllPrerequisites\<close>, which keeps a visited set, is total.
\<close>

theorem identifyCriticalPath_terminates_iff_acyclic:
  "(identifyCriticalPath \<lparr>planner_graph = build gops, planner_diagnostics = eng\<rparr> targets = None
      \<longleftrightarrow> (\<exists>t \<in> set targets. \<exists>z. (z, t) \<in> (requiresRel (build gops))\<^sup>*
                                  \<and> (z, z) \<in> (requiresRel (build gops))\<^sup>+))
   \<and> ((\<exists>cp. identifyCriticalPath \<lparr>planner_graph = build gops, planner_diagnostics = eng\<rparr> targets
              = Some (Inr cp))
      \<longleftrightarrow> \<not> (\<exists>t \<in> set targets. \<exists>z. (z, t) \<in> (requiresRel (build gops))\<^sup>*
                                  \<and> (z, z) \<in> (requiresRel (build gops))\<^sup>+))"
proof -
  let ?g = "build gops"
  let ?p = "\<lparr>planner_graph = ?g, planner_diagnostics = eng\<rparr>"
  let ?cyc = "\<exists>t \<in> set targets. \<exists>z. (z, t) \<in> (requiresRel ?g)\<^sup>* \<and> (z, z) \<in> (requiresRel ?g)\<^sup>+"
  have fin: "finite (prereqRel ?g)" by (simp add: prereqRel_build finite_requiresRel)
  have w: "wave_loop ?g [t] 0 = None
      \<longleftrightarrow> (\<exists>z. (z, t) \<in> (requiresRel ?g)\<^sup>* \<and> (z, z) \<in> (requiresRel ?g)\<^sup>+)" for t
    using wave_loop_iff[OF fin, of t] by (simp add: cycle_behind_def prereqRel_build)
  have f: "fold_option (target_step ?g) targets ([], 0) = None \<longleftrightarrow> ?cyc"
    unfolding fold_option_None using w by blast
  have "identifyCriticalPath ?p targets = None
      \<longleftrightarrow> fold_option (target_step ?g) targets ([], 0) = None"
    by (cases "fold_option (target_step ?g) targets ([], 0)") (simp_all add: identifyCriticalPath_def)
  with f have n: "identifyCriticalPath ?p targets = None \<longleftrightarrow> ?cyc" by simp
  have s: "(\<exists>cp. identifyCriticalPath ?p targets = Some (Inr cp)) \<longleftrightarrow> \<not> ?cyc"
  proof (cases "fold_option (target_step ?g) targets ([], 0)")
    case None
    with f show ?thesis by (simp add: identifyCriticalPath_def)
  next
    case (Some st)
    from topologicalSort_result[of ?g "targets @ fst st"] obtain out where
      "topologicalSort ?g (targets @ fst st) = Inr out" by blast
    with Some have "\<exists>cp. identifyCriticalPath ?p targets = Some (Inr cp)"
      by (simp add: identifyCriticalPath_def)
    moreover from Some f have "\<not> ?cyc" by simp
    ultimately show ?thesis by blast
  qed
  from n s show ?thesis by blast
qed

text \<open>
  Witness for C10: with \<open>A\<close> and \<open>B\<close> requiring each other the call for \<open>[A]\<close> does not
  return, while \<open>getAllPrerequisites\<close> gives \<open>[B]\<close>; on the chain \<open>A, B, C\<close> the call for \<open>[C]\<close>
  returns depth 2.
\<close>

theorem identifyCriticalPath_terminates_iff_acyclic_witness:
  "identifyCriticalPath \<lparr>planner_graph = build [AddEdge (mk_edge ''A'' ''B''), AddEdge (mk_edge ''B'' ''A'')],
      planner_diagnostics = DiagnosticsEngine_new\<rparr> [''A''] = None
   \<and> (''A'', ''A'') \<in> (requiresRel (build [AddEdge (mk_edge ''A'' ''B''), AddEdge (mk_edge ''B'' ''A'')]))\<^sup>+
   \<and> getAllPrerequisites (build [AddEdge (mk_edge ''A'' ''B''), AddEdge (mk_edge ''B'' ''A'')]) ''A''
       = [''B'']
   \<and> identifyCriticalPath \<lparr>planner_graph = build [AddEdge (mk_edge ''A'' ''B''), AddEdge (mk_edge ''B'' ''C'')],
      planner_diagnostics = DiagnosticsEngine_new\<rparr> [''C'']
     = Some (Inr \<lparr>criticalConcepts = [''A'', ''B'', ''C''], path_depth = 2, totalPrerequisites = 2\<rparr>)"
proof -
  let ?ops = "[AddEdge (mk_edge ''A'' ''B''), AddEdge (mk_edge ''B'' ''A'')]"
  have ab: "(''A'', ''B'') \<in> requiresRel (build ?ops)" by code_simp
  have ba: "(''B'', ''A'') \<in> requiresRel (build ?ops)" by code_simp
  from ab ba have cyc: "(''A'', ''A'') \<in> (requiresRel (build ?ops))\<^sup>+"
    by (rule trancl_into_trancl[OF r_into_trancl])
  then have "\<exists>t \<in> set [''A'']. \<exists>z. (z, t) \<in> (requiresRel (build ?ops))\<^sup>*
       \<and> (z, z) \<in> (requiresRel (build ?ops))\<^sup>+" by auto
  with identifyCriticalPath_terminates_iff_acyclic[of ?ops DiagnosticsEngine_new "[''A'']"]
  have none: "identifyCriticalPath \<lparr>planner_graph = build ?ops,
      planner_diagnostics = DiagnosticsEngine_new\<rparr> [''A''] = None" by blast
  have gp: "getAllPrerequisites (build ?ops) ''A'' = [''B'']" by code_simp
  have ok: "identifyCriticalPath \<lparr>planner_graph = build [AddEdge (mk_edge ''A'' ''B''), AddEdge (mk_edge ''B'' ''C'')],
      planner_diagnostics = DiagnosticsEngine_new\<rparr> [''C'']
     = Some (Inr \<lparr>criticalConcepts = [''A'', ''B'', ''C''], path_depth = 2, totalPrerequisites = 2\<rparr>)"
    by code_simp
  from none cyc gp ok show ?thesis by blast
qed

section \<open>Cycle detection\<close>

text \<open>
  The closure \<open>dfs\<close> of \<open>detectCycles\<close> works on three shared variables, here the state
  that is passed along. Every call gets its own copy of \<open>path\<close>. The \<open>for\<close> loop over the
  dependents of a node is \<open>dfs_deps\<close>, whose \<open>path\<close> already ends with that node.
\<close>

record dfs_state =
  visited :: "string list"
  recursionStack :: "string list"
  cycles :: "string list list"

text \<open>\<open>xs.indexOf(x)\<close>, \<open>-1\<close> when absent, and \<open>xs.slice(start)\<close>, a negative start counting from
  the end.\<close>

fun indexOf :: "'a list \<Rightarrow> 'a \<Rightarrow> int" where
  "indexOf [] x = - 1"
| "indexOf (y # ys) x = (if y = x then 0 else (let i = indexOf ys x in if i < 0 then - 1 else i + 1))"

definition Array_slice :: "'a list \<Rightarrow> int \<Rightarrow> 'a list" where
  "Array_slice xs start =
     (if start < 0 then drop (nat (int (length xs) + start)) xs else drop (nat start) xs)"

definition enter :: "dfs_state \<Rightarrow> string \<Rightarrow> dfs_state" where
  "enter st nodeId =
     st\<lparr>visited := Set_add (visited st) nodeId,
        recursionStack := Set_add (recursionStack st) nodeId\<rparr>"

definition leave :: "dfs_state \<Rightarrow> string \<Rightarrow> dfs_state" where
  "leave st nodeId = st\<lparr>recursionStack := Set_delete (recursionStack st) nodeId\<rparr>"

definition record_cycle :: "string list \<Rightarrow> string \<Rightarrow> dfs_state \<Rightarrow> dfs_state" where
  "record_cycle path dep st =
     (let cycleStart = indexOf path dep
      in st\<lparr>cycles := cycles st @ [Array_slice path cycleStart]\<rparr>)"

definition forward_targets :: "MathGraph \<Rightarrow> string set" where
  "forward_targets g = set (map edge_to (concat (map snd (edges g))))"

lemma getDependents_targets: "set (getDependents g v) \<subseteq> forward_targets g"
proof -
  have "set (getOutgoingEdges g v) \<subseteq> set (concat (map snd (edges g)))"
  proof
    fix e assume "e \<in> set (getOutgoingEdges g v)"
    then obtain l where l: "map_of (edges g) v = Some l" "e \<in> set l"
      by (cases "map_of (edges g) v") (auto simp: getOutgoingEdges_def Map_get_def)
    from map_of_SomeD[OF l(1)] l(2) show "e \<in> set (concat (map snd (edges g)))"
      by force
  qed
  then show ?thesis
    by (auto simp: getDependents_def forward_targets_def)
qed

function dfs :: "MathGraph \<Rightarrow> string \<Rightarrow> string list \<Rightarrow> dfs_state \<Rightarrow> dfs_state"
  and dfs_deps :: "MathGraph \<Rightarrow> string list \<Rightarrow> string list \<Rightarrow> dfs_state \<Rightarrow> dfs_state" where
  "dfs g nodeId path st =
     leave (dfs_deps g (path @ [nodeId]) (getDependents g nodeId) (enter st nodeId)) nodeId"
| "dfs_deps g path [] st = st"
| "dfs_deps g path (dep # deps) st =
     (if dep \<notin> set (visited st) then dfs_deps g path deps (dfs g dep path st)
      else if dep \<in> set (recursionStack st) then dfs_deps g path deps (record_cycle path dep st)
      else dfs_deps g path deps st)"
  by pat_completeness auto

lemma visited_enter [simp]: "set (visited (enter st n)) = insert n (set (visited st))"
  by (simp add: enter_def)

lemma visited_leave [simp]: "visited (leave st n) = visited st"
  by (simp add: leave_def)

lemma visited_record_cycle [simp]: "visited (record_cycle path dep st) = visited st"
  by (simp add: record_cycle_def Let_def)

lemma visited_grows_dom:
  "dfs_dfs_deps_dom (Inl (g, n, path, st)) \<Longrightarrow> set (visited st) \<subseteq> set (visited (dfs g n path st))"
  "dfs_dfs_deps_dom (Inr (g, path, deps, st)) \<Longrightarrow> set (visited st) \<subseteq> set (visited (dfs_deps g path deps st))"
proof (induction g n path st and g path deps st rule: dfs_dfs_deps.pinduct)
  case (1 g nodeId path st)
  then show ?case by (auto simp: dfs.psimps)
next
  case (2 g path st)
  then show ?case by (simp add: dfs_deps.psimps)
next
  case (3 g path dep deps st)
  then show ?case by (auto simp: dfs_deps.psimps split: if_splits)
qed

termination dfs
proof (relation "measures
    [\<lambda>x. case x of
        Inl (g, n, path, st) \<Rightarrow> card (forward_targets g - insert n (set (visited st)))
      | Inr (g, path, deps, st) \<Rightarrow> card ((forward_targets g \<union> set deps) - set (visited st)),
     \<lambda>x. case x of
        Inl (g, n, path, st) \<Rightarrow> length (getDependents g n) + 1
      | Inr (g, path, deps, st) \<Rightarrow> length deps]", goal_cases)
  case 1
  show ?case by simp
next
  case (2 g nodeId path st)
  have "(forward_targets g \<union> set (getDependents g nodeId)) = forward_targets g"
    using getDependents_targets[of g nodeId] by auto
  then show ?case by simp
next
  case (3 g path dep deps st)
  have fin: "finite ((forward_targets g \<union> set (dep # deps)) - set (visited st))"
    by (simp add: forward_targets_def)
  have "forward_targets g - insert dep (set (visited st))
        \<subset> (forward_targets g \<union> set (dep # deps)) - set (visited st)"
    using 3 by auto
  from psubset_card_mono[OF fin this] show ?case by simp
next
  case (4 g path dep deps st)
  have fin: "finite ((forward_targets g \<union> set (dep # deps)) - set (visited st))"
    by (simp add: forward_targets_def)
  have "(forward_targets g \<union> set deps) - set (visited (dfs g dep path st))
        \<subseteq> (forward_targets g \<union> set (dep # deps)) - set (visited st)"
    using visited_grows_dom(1)[OF 4(2)] by auto
  from card_mono[OF fin this] show ?case by auto
next
  case (5 g path dep deps st)
  have fin: "finite ((forward_targets g \<union> set (dep # deps)) - set (visited st))"
    by (simp add: forward_targets_def)
  have "(forward_targets g \<union> set deps) - set (visited (record_cycle path dep st))
        \<subseteq> (forward_targets g \<union> set (dep # deps)) - set (visited st)"
    by auto
  from card_mono[OF fin this] show ?case by auto
next
  case (6 g path dep deps st)
  have fin: "finite ((forward_targets g \<union> set (dep # deps)) - set (visited st))"
    by (simp add: forward_targets_def)
  have "(forward_targets g \<union> set deps) - set (visited st)
        \<subseteq> (forward_targets g \<union> set (dep # deps)) - set (visited st)"
    by auto
  from card_mono[OF fin this] show ?case by auto
qed

definition visit_root :: "MathGraph \<Rightarrow> string \<Rightarrow> dfs_state \<Rightarrow> dfs_state" where
  "visit_root g nodeId st = (if nodeId \<notin> set (visited st) then dfs g nodeId [] st else st)"

definition detectCycles :: "MathGraph \<Rightarrow> string list list" where
  "detectCycles g =
     cycles (fold (visit_root g) (Map_keys (nodes g))
               \<lparr>visited = [], recursionStack = [], cycles = []\<rparr>)"

subsection \<open>What a traversal changes\<close>

definition depRel :: "MathGraph \<Rightarrow> (string \<times> string) set" where
  "depRel g = {(n, v). v \<in> set (getDependents g n)}"

lemma stack_enter [simp]: "set (recursionStack (enter st n)) = insert n (set (recursionStack st))"
  by (simp add: enter_def)

lemma cycles_enter [simp]: "cycles (enter st n) = cycles st"
  by (simp add: enter_def)

lemma stack_leave [simp]: "set (recursionStack (leave st n)) = set (recursionStack st) - {n}"
  by (auto simp: leave_def Set_delete_def)

lemma cycles_leave [simp]: "cycles (leave st n) = cycles st"
  by (simp add: leave_def)

lemma stack_record_cycle [simp]: "recursionStack (record_cycle path dep st) = recursionStack st"
  by (simp add: record_cycle_def Let_def)

lemma cycles_record_cycle [simp]: "cycles (record_cycle path dep st) \<noteq> []"
  by (simp add: record_cycle_def Let_def)

lemma dfs_frame:
  "set (recursionStack st) \<subseteq> set (visited st) \<Longrightarrow>
     insert n (set (visited st)) \<subseteq> set (visited (dfs g n path st))
   \<and> set (recursionStack (dfs g n path st)) = set (recursionStack st) - {n}
   \<and> (cycles (dfs g n path st) = [] \<longrightarrow> cycles st = [])"
  "set (recursionStack st) \<subseteq> set (visited st) \<Longrightarrow>
     set (visited st) \<subseteq> set (visited (dfs_deps g path deps st))
   \<and> set (recursionStack (dfs_deps g path deps st)) = set (recursionStack st)
   \<and> (cycles (dfs_deps g path deps st) = [] \<longrightarrow> cycles st = [])"
proof (induction g n path st and g path deps st rule: dfs_dfs_deps.induct)
  case (1 g nodeId path st)
  have "set (recursionStack (enter st nodeId)) \<subseteq> set (visited (enter st nodeId))"
    using "1.prems" by auto
  from "1.IH"[OF this] show ?case by auto
next
  case (2 g path st)
  show ?case by simp
next
  case (3 g path dep deps st)
  note sub = "3.prems"
  show ?case
  proof (cases "dep \<in> set (visited st)")
    case False
    from "3.IH"(1)[OF False sub] have
      a: "insert dep (set (visited st)) \<subseteq> set (visited (dfs g dep path st))"
      and b: "set (recursionStack (dfs g dep path st)) = set (recursionStack st) - {dep}"
      and c: "cycles (dfs g dep path st) = [] \<longrightarrow> cycles st = []" by blast+
    have b': "set (recursionStack (dfs g dep path st)) = set (recursionStack st)"
      using b False sub by auto
    have "set (recursionStack (dfs g dep path st)) \<subseteq> set (visited (dfs g dep path st))"
      using b' a sub by auto
    from "3.IH"(2)[OF False this] a b' c False show ?thesis by auto
  next
    case True
    then have v: "\<not> dep \<notin> set (visited st)" by simp
    show ?thesis
    proof (cases "dep \<in> set (recursionStack st)")
      case True
      have "set (recursionStack (record_cycle path dep st)) \<subseteq> set (visited (record_cycle path dep st))"
        using sub by simp
      from "3.IH"(3)[OF v True this] v True show ?thesis by auto
    next
      case False
      from "3.IH"(4)[OF v False sub] v False show ?thesis by auto
    qed
  qed
qed

subsection \<open>Reported cycles exist, and no reachable cycle is missed\<close>

definition reachable_cycle :: "MathGraph \<Rightarrow> string set \<Rightarrow> bool" where
  "reachable_cycle g K \<longleftrightarrow> (\<exists>k \<in> K. \<exists>z. (k, z) \<in> (depRel g)\<^sup>* \<and> (z, z) \<in> (depRel g)\<^sup>+)"

lemma dfs_sound:
  "set (recursionStack st) \<subseteq> set (visited st) \<Longrightarrow>
   (\<forall>x \<in> set (recursionStack st). (x, n) \<in> (depRel g)\<^sup>*) \<Longrightarrow>
   (\<exists>k \<in> K. (k, n) \<in> (depRel g)\<^sup>*) \<Longrightarrow>
   (cycles st \<noteq> [] \<longrightarrow> reachable_cycle g K) \<Longrightarrow>
   (cycles (dfs g n path st) \<noteq> [] \<longrightarrow> reachable_cycle g K)"
  "\<forall>m. set (recursionStack st) \<subseteq> set (visited st) \<longrightarrow>
     m \<in> set (recursionStack st) \<longrightarrow>
     set deps \<subseteq> set (getDependents g m) \<longrightarrow>
     (\<forall>x \<in> set (recursionStack st). (x, m) \<in> (depRel g)\<^sup>*) \<longrightarrow>
     (\<exists>k \<in> K. (k, m) \<in> (depRel g)\<^sup>*) \<longrightarrow>
     (cycles st \<noteq> [] \<longrightarrow> reachable_cycle g K) \<longrightarrow>
     (cycles (dfs_deps g path deps st) \<noteq> [] \<longrightarrow> reachable_cycle g K)"
proof (induction g n path st and g path deps st rule: dfs_dfs_deps.induct)
  case (1 g nodeId path st)
  let ?st1 = "enter st nodeId"
  have a: "set (recursionStack ?st1) \<subseteq> set (visited ?st1)" using "1.prems"(1) by auto
  have b: "nodeId \<in> set (recursionStack ?st1)" by simp
  have c: "\<forall>x \<in> set (recursionStack ?st1). (x, nodeId) \<in> (depRel g)\<^sup>*"
    using "1.prems"(2) by auto
  have d: "cycles ?st1 \<noteq> [] \<longrightarrow> reachable_cycle g K" using "1.prems"(4) by simp
  have e: "set (getDependents g nodeId) \<subseteq> set (getDependents g nodeId)" by simp
  have "cycles (dfs_deps g (path @ [nodeId]) (getDependents g nodeId) ?st1) \<noteq> []
      \<longrightarrow> reachable_cycle g K"
    using "1.IH" a b c e "1.prems"(3) d by blast
  then show ?case by simp
next
  case (2 g path st)
  show ?case by simp
next
  case (3 g path dep deps st)
  show ?case
  proof (intro allI impI)
    fix m
    assume sub: "set (recursionStack st) \<subseteq> set (visited st)"
      and m: "m \<in> set (recursionStack st)"
      and deps: "set (dep # deps) \<subseteq> set (getDependents g m)"
      and reach: "\<forall>x \<in> set (recursionStack st). (x, m) \<in> (depRel g)\<^sup>*"
      and key: "\<exists>k \<in> K. (k, m) \<in> (depRel g)\<^sup>*"
      and old: "cycles st \<noteq> [] \<longrightarrow> reachable_cycle g K"
      and new: "cycles (dfs_deps g path (dep # deps) st) \<noteq> []"
    have edge: "(m, dep) \<in> depRel g" using deps by (simp add: depRel_def)
    have deps': "set deps \<subseteq> set (getDependents g m)" using deps by simp
    show "reachable_cycle g K"
    proof (cases "dep \<in> set (visited st)")
      case False
      let ?st' = "dfs g dep path st"
      have r1: "\<forall>x \<in> set (recursionStack st). (x, dep) \<in> (depRel g)\<^sup>*"
        using reach edge by (meson rtrancl.rtrancl_into_rtrancl)
      have k1: "\<exists>k \<in> K. (k, dep) \<in> (depRel g)\<^sup>*"
        using key edge by (meson rtrancl.rtrancl_into_rtrancl)
      from "3.IH"(1)[OF False sub r1 k1 old]
      have c1: "cycles ?st' \<noteq> [] \<longrightarrow> reachable_cycle g K" .
      from dfs_frame(1)[OF sub, of dep g path] have
        v: "insert dep (set (visited st)) \<subseteq> set (visited ?st')"
        and s: "set (recursionStack ?st') = set (recursionStack st) - {dep}" by blast+
      have s': "set (recursionStack ?st') = set (recursionStack st)" using s False sub by auto
      have sub': "set (recursionStack ?st') \<subseteq> set (visited ?st')" using s' v sub by auto
      have m': "m \<in> set (recursionStack ?st')" using s' m by simp
      have r': "\<forall>x \<in> set (recursionStack ?st'). (x, m) \<in> (depRel g)\<^sup>*" using s' reach by simp
      have "cycles (dfs_deps g path deps ?st') \<noteq> [] \<longrightarrow> reachable_cycle g K"
        using "3.IH"(2)[OF False] sub' m' deps' r' key c1 by blast
      with new False show ?thesis by simp
    next
      case True
      then have v: "\<not> dep \<notin> set (visited st)" by simp
      show ?thesis
      proof (cases "dep \<in> set (recursionStack st)")
        case True
        from reach True have "(dep, m) \<in> (depRel g)\<^sup>*" by blast
        with edge have "(dep, dep) \<in> (depRel g)\<^sup>+" by (meson rtrancl_into_trancl1)
        moreover from key edge have "\<exists>k \<in> K. (k, dep) \<in> (depRel g)\<^sup>*"
          by (meson rtrancl.rtrancl_into_rtrancl)
        ultimately show ?thesis unfolding reachable_cycle_def by blast
      next
        case False
        have "cycles (dfs_deps g path deps st) \<noteq> [] \<longrightarrow> reachable_cycle g K"
          using "3.IH"(4)[OF v False] sub m deps' reach key old by blast
        with new v False show ?thesis by simp
      qed
    qed
  qed
qed

definition black :: "dfs_state \<Rightarrow> string set" where
  "black st = set (visited st) - set (recursionStack st)"

definition closed_black :: "MathGraph \<Rightarrow> dfs_state \<Rightarrow> bool" where
  "closed_black g st \<longleftrightarrow> (\<forall>b \<in> black st. set (getDependents g b) \<subseteq> black st)"

definition acyclic_black :: "MathGraph \<Rightarrow> dfs_state \<Rightarrow> bool" where
  "acyclic_black g st \<longleftrightarrow> (\<forall>b \<in> black st. (b, b) \<notin> (depRel g)\<^sup>+)"

lemma closed_black_reach:
  assumes "closed_black g st" "(b, c) \<in> (depRel g)\<^sup>*" "b \<in> black st"
  shows "c \<in> black st"
  using assms(2,3,1)
  by (induction rule: rtrancl_induct) (auto simp: closed_black_def depRel_def)

lemma black_finish:
  assumes cl: "closed_black g st2" and ac: "acyclic_black g st2"
    and succs: "set (getDependents g n) \<subseteq> black st2"
    and n: "n \<in> set (visited st2)" "n \<in> set (recursionStack st2)"
  shows "closed_black g (leave st2 n) \<and> acyclic_black g (leave st2 n) \<and> n \<in> black (leave st2 n)"
proof -
  have bl: "black (leave st2 n) = insert n (black st2)" using n by (auto simp: black_def)
  have nb: "n \<notin> black st2" using n by (simp add: black_def)
  have c: "closed_black g (leave st2 n)"
    using cl succs unfolding closed_black_def bl by auto
  have "(n, n) \<notin> (depRel g)\<^sup>+"
  proof
    assume "(n, n) \<in> (depRel g)\<^sup>+"
    then obtain d where d: "(n, d) \<in> depRel g" "(d, n) \<in> (depRel g)\<^sup>*" by (meson tranclD)
    then have "d \<in> black st2" using succs by (auto simp: depRel_def)
    from closed_black_reach[OF cl d(2) this] nb show False by simp
  qed
  then have a: "acyclic_black g (leave st2 n)"
    using ac unfolding acyclic_black_def bl by auto
  from c a bl show ?thesis by simp
qed

lemma dfs_complete:
  "set (recursionStack st) \<subseteq> set (visited st) \<Longrightarrow> n \<notin> set (visited st) \<Longrightarrow>
   closed_black g st \<Longrightarrow> acyclic_black g st \<Longrightarrow> cycles (dfs g n path st) = [] \<Longrightarrow>
   closed_black g (dfs g n path st) \<and> acyclic_black g (dfs g n path st)
   \<and> n \<in> black (dfs g n path st)"
  "set (recursionStack st) \<subseteq> set (visited st) \<Longrightarrow>
   closed_black g st \<Longrightarrow> acyclic_black g st \<Longrightarrow> cycles (dfs_deps g path deps st) = [] \<Longrightarrow>
   closed_black g (dfs_deps g path deps st) \<and> acyclic_black g (dfs_deps g path deps st)
   \<and> set deps \<subseteq> black (dfs_deps g path deps st)"
proof (induction g n path st and g path deps st rule: dfs_dfs_deps.induct)
  case (1 g nodeId path st)
  let ?st1 = "enter st nodeId"
  let ?st2 = "dfs_deps g (path @ [nodeId]) (getDependents g nodeId) ?st1"
  have sub1: "set (recursionStack ?st1) \<subseteq> set (visited ?st1)" using "1.prems"(1) by auto
  have b1: "black ?st1 = black st" using "1.prems"(2) by (auto simp: black_def)
  have cl1: "closed_black g ?st1" using "1.prems"(3) by (simp add: closed_black_def b1)
  have ac1: "acyclic_black g ?st1" using "1.prems"(4) by (simp add: acyclic_black_def b1)
  have cy2: "cycles ?st2 = []" using "1.prems"(5) by simp
  from "1.IH"[OF sub1 cl1 ac1 cy2] have
    cl2: "closed_black g ?st2" and ac2: "acyclic_black g ?st2"
    and su2: "set (getDependents g nodeId) \<subseteq> black ?st2" by blast+
  from dfs_frame(2)[OF sub1, of g "path @ [nodeId]" "getDependents g nodeId"] have
    "nodeId \<in> set (visited ?st2)" "nodeId \<in> set (recursionStack ?st2)" by auto
  from black_finish[OF cl2 ac2 su2 this] show ?case by simp
next
  case (2 g path st)
  then show ?case by simp
next
  case (3 g path dep deps st)
  note sub = "3.prems"(1) and cl = "3.prems"(2) and ac = "3.prems"(3) and cy = "3.prems"(4)
  show ?case
  proof (cases "dep \<in> set (visited st)")
    case False
    let ?st' = "dfs g dep path st"
    let ?fin = "dfs_deps g path deps ?st'"
    from dfs_frame(1)[OF sub, of dep g path] have
      v: "insert dep (set (visited st)) \<subseteq> set (visited ?st')"
      and s: "set (recursionStack ?st') = set (recursionStack st) - {dep}" by blast+
    have s': "set (recursionStack ?st') = set (recursionStack st)" using s False sub by auto
    have sub': "set (recursionStack ?st') \<subseteq> set (visited ?st')" using s' v sub by auto
    have fin: "dfs_deps g path (dep # deps) st = ?fin" using False by simp
    have cyf: "cycles ?fin = []" using cy fin by simp
    from dfs_frame(2)[OF sub', of g path deps] cyf have
      cy': "cycles ?st' = []"
      and vf: "set (visited ?st') \<subseteq> set (visited ?fin)"
      and sf: "set (recursionStack ?fin) = set (recursionStack ?st')" by blast+
    from "3.IH"(1)[OF False sub False cl ac cy'] have
      cl': "closed_black g ?st'" and ac': "acyclic_black g ?st'" and db: "dep \<in> black ?st'"
      by blast+
    from "3.IH"(2)[OF False sub' cl' ac' cyf] have
      r: "closed_black g ?fin" "acyclic_black g ?fin" "set deps \<subseteq> black ?fin" by blast+
    have "dep \<in> black ?fin" using db vf sf by (auto simp: black_def)
    with r fin show ?thesis by simp
  next
    case True
    then have v: "\<not> dep \<notin> set (visited st)" by simp
    show ?thesis
    proof (cases "dep \<in> set (recursionStack st)")
      case True
      let ?st' = "record_cycle path dep st"
      have fin: "dfs_deps g path (dep # deps) st = dfs_deps g path deps ?st'"
        using v True by simp
      have "set (recursionStack ?st') \<subseteq> set (visited ?st')" using sub by simp
      from dfs_frame(2)[OF this, of g path deps] cy fin have "cycles ?st' = []" by simp
      then show ?thesis by simp
    next
      case False
      have fin: "dfs_deps g path (dep # deps) st = dfs_deps g path deps st"
        using v False by simp
      from "3.IH"(4)[OF v False sub cl ac] cy fin have
        r: "closed_black g (dfs_deps g path deps st)" "acyclic_black g (dfs_deps g path deps st)"
          "set deps \<subseteq> black (dfs_deps g path deps st)" by simp_all
      from dfs_frame(2)[OF sub, of g path deps] have
        "set (visited st) \<subseteq> set (visited (dfs_deps g path deps st))"
        "set (recursionStack (dfs_deps g path deps st)) = set (recursionStack st)" by blast+
      with True False have "dep \<in> black (dfs_deps g path deps st)" by (auto simp: black_def)
      with r fin show ?thesis by simp
    qed
  qed
qed

lemma visit_root_frame:
  assumes "set (recursionStack st) = {}"
  shows "insert k (set (visited st)) \<subseteq> set (visited (visit_root g k st))
    \<and> set (recursionStack (visit_root g k st)) = {}
    \<and> (cycles (visit_root g k st) = [] \<longrightarrow> cycles st = [])"
proof (cases "k \<in> set (visited st)")
  case True
  with assms show ?thesis by (auto simp: visit_root_def)
next
  case False
  have "set (recursionStack st) \<subseteq> set (visited st)" using assms by simp
  from dfs_frame(1)[OF this, of k g "[]"] assms False show ?thesis
    by (auto simp: visit_root_def)
qed

lemma fold_visit_root_frame:
  "set (recursionStack st) = {} \<Longrightarrow>
     set ks \<union> set (visited st) \<subseteq> set (visited (fold (visit_root g) ks st))
   \<and> set (recursionStack (fold (visit_root g) ks st)) = {}
   \<and> (cycles (fold (visit_root g) ks st) = [] \<longrightarrow> cycles st = [])"
proof (induction ks arbitrary: st)
  case Nil
  then show ?case by simp
next
  case (Cons k ks)
  from visit_root_frame[OF Cons.prems, of k g] have
    a: "insert k (set (visited st)) \<subseteq> set (visited (visit_root g k st))"
    and b: "set (recursionStack (visit_root g k st)) = {}"
    and c: "cycles (visit_root g k st) = [] \<longrightarrow> cycles st = []" by blast+
  from Cons.IH[OF b] a c show ?case by auto
qed

lemma fold_visit_root_sound:
  "set (recursionStack st) = {} \<Longrightarrow> set ks \<subseteq> K \<Longrightarrow>
   (cycles st \<noteq> [] \<longrightarrow> reachable_cycle g K) \<Longrightarrow>
   (cycles (fold (visit_root g) ks st) \<noteq> [] \<longrightarrow> reachable_cycle g K)"
proof (induction ks arbitrary: st)
  case Nil
  then show ?case by simp
next
  case (Cons k ks)
  have sub: "set (recursionStack st) \<subseteq> set (visited st)" using Cons.prems(1) by simp
  have "cycles (visit_root g k st) \<noteq> [] \<longrightarrow> reachable_cycle g K"
  proof (cases "k \<in> set (visited st)")
    case True
    with Cons.prems(3) show ?thesis by (simp add: visit_root_def)
  next
    case False
    have "\<forall>x \<in> set (recursionStack st). (x, k) \<in> (depRel g)\<^sup>*" using Cons.prems(1) by simp
    moreover have "\<exists>k' \<in> K. (k', k) \<in> (depRel g)\<^sup>*" using Cons.prems(2) by auto
    ultimately have "cycles (dfs g k [] st) \<noteq> [] \<longrightarrow> reachable_cycle g K"
      using dfs_sound(1)[OF sub _ _ Cons.prems(3)] by blast
    with False show ?thesis by (simp add: visit_root_def)
  qed
  moreover have "set (recursionStack (visit_root g k st)) = {}"
    using visit_root_frame[OF Cons.prems(1)] by blast
  moreover have "set ks \<subseteq> K" using Cons.prems(2) by simp
  ultimately show ?case using Cons.IH by simp
qed

lemma fold_visit_root_complete:
  "set (recursionStack st) = {} \<Longrightarrow> closed_black g st \<Longrightarrow> acyclic_black g st \<Longrightarrow>
   cycles (fold (visit_root g) ks st) = [] \<Longrightarrow>
   closed_black g (fold (visit_root g) ks st) \<and> acyclic_black g (fold (visit_root g) ks st)"
proof (induction ks arbitrary: st)
  case Nil
  then show ?case by simp
next
  case (Cons k ks)
  let ?st' = "visit_root g k st"
  have sub: "set (recursionStack st) \<subseteq> set (visited st)" using Cons.prems(1) by simp
  from visit_root_frame[OF Cons.prems(1), of k g] have
    b: "set (recursionStack ?st') = {}" by blast
  from fold_visit_root_frame[OF b, of ks g] Cons.prems(4) have cy: "cycles ?st' = []" by simp
  have "closed_black g ?st' \<and> acyclic_black g ?st'"
  proof (cases "k \<in> set (visited st)")
    case True
    with Cons.prems show ?thesis by (simp add: visit_root_def)
  next
    case False
    with cy have "cycles (dfs g k [] st) = []" by (simp add: visit_root_def)
    from dfs_complete(1)[OF sub False Cons.prems(2,3) this] False show ?thesis
      by (simp add: visit_root_def)
  qed
  with Cons.IH[OF b] Cons.prems(4) show ?case by simp
qed

lemma detectCycles_iff:
  "detectCycles g = [] \<longleftrightarrow> \<not> reachable_cycle g (set (Map_keys (nodes g)))"
proof
  let ?st0 = "\<lparr>visited = [], recursionStack = [], cycles = []\<rparr>"
  let ?ks = "Map_keys (nodes g)"
  let ?fin = "fold (visit_root g) ?ks ?st0"
  assume e: "detectCycles g = []"
  then have cy: "cycles ?fin = []" by (simp add: detectCycles_def)
  have s0: "set (recursionStack ?st0) = {}" by simp
  have "closed_black g ?st0" "acyclic_black g ?st0"
    by (simp_all add: closed_black_def acyclic_black_def black_def)
  from fold_visit_root_complete[OF s0 this cy] have
    cl: "closed_black g ?fin" and ac: "acyclic_black g ?fin" by blast+
  from fold_visit_root_frame[OF s0, of ?ks g] have
    v: "set ?ks \<subseteq> set (visited ?fin)" and s: "set (recursionStack ?fin) = {}" by auto
  show "\<not> reachable_cycle g (set ?ks)"
  proof
    assume "reachable_cycle g (set ?ks)"
    then obtain k z where k: "k \<in> set ?ks" and kz: "(k, z) \<in> (depRel g)\<^sup>*"
      and zz: "(z, z) \<in> (depRel g)\<^sup>+" unfolding reachable_cycle_def by blast
    from k v s have "k \<in> black ?fin" by (auto simp: black_def)
    from closed_black_reach[OF cl kz this] have "z \<in> black ?fin" .
    with ac zz show False by (auto simp: acyclic_black_def)
  qed
next
  let ?st0 = "\<lparr>visited = [], recursionStack = [], cycles = []\<rparr>"
  assume n: "\<not> reachable_cycle g (set (Map_keys (nodes g)))"
  have "cycles (fold (visit_root g) (Map_keys (nodes g)) ?st0) \<noteq> []
      \<longrightarrow> reachable_cycle g (set (Map_keys (nodes g)))"
    by (rule fold_visit_root_sound) simp_all
  with n show "detectCycles g = []" by (auto simp: detectCycles_def)
qed

lemma depRel_build: "depRel (build ops) = requiresRel (build ops)"
  by (auto simp: depRel_def getDependents_build)

lemma node_keys: "k \<in> set (Map_keys (nodes g)) \<longleftrightarrow> getNode g k \<noteq> None"
  by (simp add: getNode_def Map_get_def Map_keys_def map_of_eq_None_iff)

text \<open>
  C2 as stated counts every ID that is an edge endpoint. \<open>detectCycles\<close> starts its
  traversals from the keys of \<open>nodes\<close> only: two edges between IDs that were never added
  as nodes form a cycle that it does not report.
\<close>

theorem detectCycles_misses_cycle_without_node:
  "detectCycles (build [AddEdge (mk_edge ''A'' ''B''), AddEdge (mk_edge ''B'' ''A'')]) = []
   \<and> (''A'', ''A'') \<in> (requiresRel (build [AddEdge (mk_edge ''A'' ''B''), AddEdge (mk_edge ''B'' ''A'')]))\<^sup>+"
proof -
  let ?ops = "[AddEdge (mk_edge ''A'' ''B''), AddEdge (mk_edge ''B'' ''A'')]"
  have d: "detectCycles (build ?ops) = []" by code_simp
  have ab: "(''A'', ''B'') \<in> requiresRel (build ?ops)" by code_simp
  have ba: "(''B'', ''A'') \<in> requiresRel (build ?ops)" by code_simp
  from ab ba have "(''A'', ''A'') \<in> (requiresRel (build ?ops))\<^sup>+"
    by (rule trancl_into_trancl[OF r_into_trancl])
  with d show ?thesis by blast
qed

text \<open>
  C2, amended. For every graph, \<open>detectCycles\<close> returns the empty list exactly when no
  REQUIRES cycle is reachable, along REQUIRES edges, from an ID that has a node record.
\<close>

theorem detectCycles_empty_iff:
  "detectCycles (build ops) = []
     \<longleftrightarrow> \<not> (\<exists>k z. getNode (build ops) k \<noteq> None
               \<and> (k, z) \<in> (requiresRel (build ops))\<^sup>* \<and> (z, z) \<in> (requiresRel (build ops))\<^sup>+)"
proof -
  have "reachable_cycle (build ops) (set (Map_keys (nodes (build ops))))
      \<longleftrightarrow> (\<exists>k z. getNode (build ops) k \<noteq> None
               \<and> (k, z) \<in> (requiresRel (build ops))\<^sup>* \<and> (z, z) \<in> (requiresRel (build ops))\<^sup>+)"
    unfolding reachable_cycle_def depRel_build using node_keys[of _ "build ops"] by blast
  then show ?thesis unfolding detectCycles_iff by simp
qed

text \<open>
  Witness for C2: the node \<open>A\<close> reaches the cycle between \<open>B\<close> and \<open>C\<close>, which have no node
  records; the cycle is reported.
\<close>

theorem detectCycles_empty_iff_witness:
  "detectCycles (build [AddNode (mk_node ''A'' 1), AddEdge (mk_edge ''A'' ''B''), AddEdge (mk_edge ''B'' ''C''),
      AddEdge (mk_edge ''C'' ''B'')]) = [[''B'', ''C'']]
   \<and> getNode (build [AddNode (mk_node ''A'' 1), AddEdge (mk_edge ''A'' ''B''), AddEdge (mk_edge ''B'' ''C''),
      AddEdge (mk_edge ''C'' ''B'')]) ''A'' \<noteq> None
   \<and> (\<exists>k z. getNode (build [AddNode (mk_node ''A'' 1), AddEdge (mk_edge ''A'' ''B''),
          AddEdge (mk_edge ''B'' ''C''), AddEdge (mk_edge ''C'' ''B'')]) k \<noteq> None
        \<and> (k, z) \<in> (requiresRel (build [AddNode (mk_node ''A'' 1), AddEdge (mk_edge ''A'' ''B''),
          AddEdge (mk_edge ''B'' ''C''), AddEdge (mk_edge ''C'' ''B'')]))\<^sup>*
        \<and> (z, z) \<in> (requiresRel (build [AddNode (mk_node ''A'' 1), AddEdge (mk_edge ''A'' ''B''),
          AddEdge (mk_edge ''B'' ''C''), AddEdge (mk_edge ''C'' ''B'')]))\<^sup>+)"
proof -
  let ?ops = "[AddNode (mk_node ''A'' 1), AddEdge (mk_edge ''A'' ''B''), AddEdge (mk_edge ''B'' ''C''),
      AddEdge (mk_edge ''C'' ''B'')]"
  have d: "detectCycles (build ?ops) = [[''B'', ''C'']]" by code_simp
  have n: "getNode (build ?ops) ''A'' \<noteq> None" by code_simp
  from d have "detectCycles (build ?ops) \<noteq> []" by simp
  with detectCycles_empty_iff[of ?ops] have "\<exists>k z. getNode (build ?ops) k \<noteq> None
        \<and> (k, z) \<in> (requiresRel (build ?ops))\<^sup>* \<and> (z, z) \<in> (requiresRel (build ?ops))\<^sup>+"
    by blast
  with d n show ?thesis by blast
qed

end
